theory Spec2Isabelle
  imports Main "HOL-Library.Word" "HOL-Library.Sublist" "HOL-Library.Multiset"
    "HOL-Library.Char_ord" "HOL-Library.List_Lexorder"
begin

section \<open>Browser node: the reconnection loop of createBrowserNode\<close>

text \<open>
  \<^verbatim>\<open>createBrowserNode\<close> keeps two mutable variables, \<^verbatim>\<open>shouldTryToReconnect\<close> and
  \<^verbatim>\<open>currentReconnectionTimeout\<close>. Timeouts are JavaScript numbers holding
  milliseconds; they are modelled as integers (doubling and \<^verbatim>\<open>Math.min\<close> are exact
  on integer-valued numbers). The record also collects, in order, every delay that the loop
  hands to \<^verbatim>\<open>setTimeout\<close> before a reconnection attempt.
\<close>

record reconnect_state =
  currentReconnectionTimeout :: int
  shouldTryToReconnect :: bool
  onlineListening :: bool
  waits :: "int list"

text \<open>
  What can happen to the node handle: the browser fires \<^verbatim>\<open>online\<close>, the loop runs one
  iteration while a websocket peer for the sync address is registered, the loop runs one
  iteration while none is (the previous connection failed or was lost), or the caller
  invokes \<^verbatim>\<open>done\<close>.
\<close>

datatype reconnect_event = OnlineEvent | LoopConnected | LoopDisconnected | DoneCalled

definition defaultReconnectionTimeout :: int where
  "defaultReconnectionTimeout = 500"

definition initialState :: "int \<Rightarrow> reconnect_state" where
  "initialState initialReconnectionTimeout =
     \<lparr> currentReconnectionTimeout = initialReconnectionTimeout,
       shouldTryToReconnect = True,
       onlineListening = True,
       waits = [] \<rparr>"

definition onOnline :: "int \<Rightarrow> reconnect_state \<Rightarrow> reconnect_state" where
  "onOnline initialReconnectionTimeout s =
     s\<lparr> currentReconnectionTimeout := initialReconnectionTimeout \<rparr>"

definition loopDisconnected :: "reconnect_state \<Rightarrow> reconnect_state" where
  "loopDisconnected s =
     (let t = min (currentReconnectionTimeout s * 2) 30000
      in s\<lparr> currentReconnectionTimeout := t, waits := waits s @ [t] \<rparr>)"

fun reconnectStep :: "int \<Rightarrow> reconnect_state \<Rightarrow> reconnect_event \<Rightarrow> reconnect_state" where
  "reconnectStep init s OnlineEvent =
     (if onlineListening s then onOnline init s else s)"
| "reconnectStep init s LoopConnected = s"
| "reconnectStep init s LoopDisconnected =
     (if shouldTryToReconnect s then loopDisconnected s else s)"
| "reconnectStep init s DoneCalled =
     s\<lparr> shouldTryToReconnect := False, onlineListening := False \<rparr>"

definition reconnectRun :: "int \<Rightarrow> reconnect_event list \<Rightarrow> reconnect_state" where
  "reconnectRun init evs = foldl (reconnectStep init) (initialState init) evs"

text \<open>The delays of \<open>n\<close> consecutive failed attempts, starting from a given state.\<close>

fun failedAttempts :: "nat \<Rightarrow> reconnect_state \<Rightarrow> reconnect_state" where
  "failedAttempts 0 s = s"
| "failedAttempts (Suc n) s = failedAttempts n (loopDisconnected s)"


section \<open>Invite links: createInviteLink and parseInviteLink\<close>

datatype error = TypeError | SyntaxError | Error string

text \<open>
  \<^verbatim>\<open>String.prototype.split\<close> with a one-character separator: the pieces between the
  separators, in order; a string without the separator (also the empty string) gives one
  piece.
\<close>

fun split :: "char \<Rightarrow> string \<Rightarrow> string list" where
  "split sep [] = [[]]"
| "split sep (c # cs) =
     (if c = sep then [] # split sep cs
      else (case split sep cs of [] \<Rightarrow> [[c]] | p # ps \<Rightarrow> (c # p) # ps))"

text \<open>Reading an array element: \<^verbatim>\<open>undefined\<close> (\<open>None\<close>) beyond the end.\<close>

definition part :: "string list \<Rightarrow> nat \<Rightarrow> string option" where
  "part parts i = (if i < length parts then Some (parts ! i) else None)"

text \<open>\<^verbatim>\<open>!x\<close> for a value that is a string or \<^verbatim>\<open>undefined\<close>.\<close>

definition falsy :: "string option \<Rightarrow> bool" where
  "falsy x = (case x of None \<Rightarrow> True | Some s \<Rightarrow> s = [])"

record invite =
  valueID :: string
  inviteSecret :: string
  valueHint :: "string option"

text \<open>The body of \<^verbatim>\<open>parseInviteLink\<close> after \<^verbatim>\<open>url.hash.split("/")\<close>; \<open>None\<close> is \<^verbatim>\<open>undefined\<close>.\<close>

definition parseInviteParts :: "string list \<Rightarrow> invite option" where
  "parseInviteParts parts =
     (if part parts 0 = Some ''#'' \<and> part parts 1 = Some ''invite'' then
        (let (hint, vid, secret) =
               (if length parts = 5 then (part parts 2, part parts 3, part parts 4)
                else if length parts = 4 then (None, part parts 2, part parts 3)
                else (None, None, None))
         in if falsy vid \<or> falsy secret then None
            else Some \<lparr> valueID = the vid, inviteSecret = the secret, valueHint = hint \<rparr>)
      else None)"

text \<open>
  \<^verbatim>\<open>new URL(inviteURL).hash\<close> is the platform's; \<^verbatim>\<open>parseInviteLink\<close> takes it as the
  parameter \<open>url_hash\<close>, whose \<open>Inl\<close> results are the constructor's exceptions.
\<close>

definition parseInviteLink :: "(string \<Rightarrow> error + string) \<Rightarrow> string \<Rightarrow> error + invite option" where
  "parseInviteLink url_hash inviteURL =
     (case url_hash inviteURL of
        Inl e \<Rightarrow> Inl e
      | Inr hash \<Rightarrow> Inr (parseInviteParts (split CHR ''/'' hash)))"

subsection \<open>The hash of a URL, after the URL Standard\<close>

text \<open>
  The part of the URL Standard's parser that decides \<^verbatim>\<open>url.hash\<close>, on strings as UTF-8
  bytes: leading and trailing C0 controls and spaces are removed, then every tab and
  newline; the fragment is what follows the first \<^verbatim>\<open>#\<close>; its bytes in the fragment
  percent-encode set (C0 controls, everything above \<^verbatim>\<open>~\<close>, space, \<^verbatim>\<open>"\<close>, \<^verbatim>\<open><\<close>,
  \<^verbatim>\<open>>\<close> and the backquote) are percent-encoded; the getter returns the empty string for
  an absent or empty fragment and \<^verbatim>\<open>#\<close> followed by the fragment otherwise. Whether the
  part before the fragment is accepted (scheme, host, ...) is the parameter \<open>parses\<close>;
  the constructor throws a \<^verbatim>\<open>TypeError\<close> when it is not.
\<close>

definition c0_control_or_space :: "char \<Rightarrow> bool" where
  "c0_control_or_space c = ((of_char c :: nat) \<le> 32)"

definition ascii_tab_or_newline :: "char \<Rightarrow> bool" where
  "ascii_tab_or_newline c = ((of_char c :: nat) \<in> {9, 10, 13})"

definition fragment_percent_encode_set :: "char \<Rightarrow> bool" where
  "fragment_percent_encode_set c =
     ((of_char c :: nat) < 32 \<or> (of_char c :: nat) > 126
      \<or> c \<in> {CHR '' '', CHR 0x22, CHR ''<'', CHR ''>'', CHR ''`''})"

definition hex_digit :: "nat \<Rightarrow> char" where
  "hex_digit n = ''0123456789ABCDEF'' ! n"

definition percent_encode_byte :: "char \<Rightarrow> string" where
  "percent_encode_byte c =
     [CHR ''%'', hex_digit ((of_char c :: nat) div 16), hex_digit ((of_char c :: nat) mod 16)]"

definition percent_encode_fragment :: "string \<Rightarrow> string" where
  "percent_encode_fragment s =
     concat (map (\<lambda>c. if fragment_percent_encode_set c then percent_encode_byte c else [c]) s)"

definition strip_c0_control_or_space :: "string \<Rightarrow> string" where
  "strip_c0_control_or_space s =
     rev (dropWhile c0_control_or_space (rev (dropWhile c0_control_or_space s)))"

definition URL_hash :: "(string \<Rightarrow> bool) \<Rightarrow> string \<Rightarrow> error + string" where
  "URL_hash parses input =
     (let s = filter (\<lambda>c. \<not> ascii_tab_or_newline c) (strip_c0_control_or_space input);
          base = takeWhile (\<lambda>c. c \<noteq> CHR ''#'') s;
          rest = dropWhile (\<lambda>c. c \<noteq> CHR ''#'') s
      in if \<not> parses base then Inl TypeError
         else (case rest of
                 [] \<Rightarrow> Inr []
               | _ # fragment \<Rightarrow>
                   if fragment = [] then Inr []
                   else Inr (CHR ''#'' # percent_encode_fragment fragment)))"

subsection \<open>createInviteLink\<close>

text \<open>
  A covalue core with its header's ruleset; an \<^verbatim>\<open>ownedByGroup\<close> ruleset leads, through
  \<^verbatim>\<open>getGroup()\<close>, to the core of the owning group.
\<close>

datatype coValueCore = CoValueCore (core_id: string) (ruleset: ruleset)
and ruleset =
    RulesetGroup
  | RulesetOwnedByGroup coValueCore
  | RulesetUnsafeAllowAll
  | RulesetAccount

datatype role = Reader | Writer | Admin

record coValue =
  coValue_id :: string
  coValue_core :: coValueCore

text \<open>The \<^verbatim>\<open>while\<close> loop that follows \<^verbatim>\<open>ownedByGroup\<close> rulesets.\<close>

fun owningCore :: "coValueCore \<Rightarrow> coValueCore" where
  "owningCore (CoValueCore i (RulesetOwnedByGroup g)) = owningCore g"
| "owningCore (CoValueCore i r) = CoValueCore i r"

text \<open>The default of \<^verbatim>\<open>baseURL\<close>: \<^verbatim>\<open>window.location.href.replace(/#.*$/, "")\<close>.\<close>

definition withoutHash :: "string \<Rightarrow> string" where
  "withoutHash href = takeWhile (\<lambda>c. c \<noteq> CHR ''#'') href"

text \<open>
  \<^verbatim>\<open>group.createInvite(role)\<close> mints a random invite secret in the group; it is the
  parameter \<open>createInvite\<close>. \<open>href\<close> is \<^verbatim>\<open>window.location.href\<close>.
\<close>

definition createInviteLink ::
  "(coValueCore \<Rightarrow> role \<Rightarrow> string) \<Rightarrow> string \<Rightarrow> coValue \<Rightarrow> role \<Rightarrow> string option \<Rightarrow> string option
     \<Rightarrow> error + string" where
  "createInviteLink createInvite href v r baseURL_opt hint =
     (let baseURL = (case baseURL_opt of None \<Rightarrow> withoutHash href | Some b \<Rightarrow> b);
          currentCoValue = owningCore (coValue_core v)
      in if ruleset currentCoValue \<noteq> RulesetGroup
         then Inl (Error ''Can't create invite link for object without group'')
         else Inr (baseURL @ ''#/invite/''
                   @ (if falsy hint then [] else the hint @ ''/'')
                   @ coValue_id v @ ''/'' @ createInvite currentCoValue r))"


text \<open>
  Strings that pass through a URL fragment as one unchanged path piece: not empty, without
  \<^verbatim>\<open>/\<close>, and without a byte that the fragment serialisation rewrites. The base58
  identifiers \<^verbatim>\<open>co_z...\<close> and \<^verbatim>\<open>inviteSecret_z...\<close> are of this kind.
\<close>

definition url_plain :: "string \<Rightarrow> bool" where
  "url_plain s =
     (s \<noteq> [] \<and> CHR ''/'' \<notin> set s \<and> (\<forall>c \<in> set s. \<not> fragment_percent_encode_set c))"

text \<open>What the URL parser reads before the fragment when a fragment follows \<open>base\<close>.\<close>

definition seen_before_fragment :: "string \<Rightarrow> string" where
  "seen_before_fragment base =
     filter (\<lambda>c. \<not> ascii_tab_or_newline c) (dropWhile c0_control_or_space base)"


section \<open>Session handles: getSessionHandleFor\<close>

text \<open>\<^verbatim>\<open>localStorage\<close>: string keys to string values.\<close>

type_synonym localStorage = "string \<rightharpoonup> string"

text \<open>The decimal numeral that \<^verbatim>\<open>accountID + "_" + idx\<close> appends for the number \<open>idx\<close>.\<close>

fun decimal :: "nat \<Rightarrow> string" where
  "decimal n =
     (if n < 10 then [''0123456789'' ! n]
      else decimal (n div 10) @ [''0123456789'' ! (n mod 10)])"

declare decimal.simps [simp del]

definition lockName :: "string \<Rightarrow> nat \<Rightarrow> string" where
  "lockName accountID idx = accountID @ ''_'' @ decimal idx"

text \<open>
  Modelled from the spec: \<^verbatim>\<open>cojsonInternals.newRandomSessionID\<close> (package cojson, not
  among the sources). A session ID is \<^verbatim>\<open><agentID>_session_<nonce>\<close>; the random nonce
  is the argument \<open>nonce\<close>.
\<close>

definition newRandomSessionID :: "string \<Rightarrow> string \<Rightarrow> string" where
  "newRandomSessionID accountID nonce = accountID @ ''_session_'' @ nonce"

record session_result =
  slot :: nat
  sessionID :: string
  storage :: localStorage

text \<open>
  The callback that runs when the lock has been granted: it reads the slot's entry of
  \<^verbatim>\<open>localStorage\<close>, mints a session ID if the entry is absent or empty (\<^verbatim>\<open>||\<close>), stores
  the session ID under the slot's key and resolves the session promise with it.
\<close>

definition lockGranted :: "string \<Rightarrow> string \<Rightarrow> nat \<Rightarrow> localStorage \<Rightarrow> session_result" where
  "lockGranted accountID nonce idx ls =
     (let key = lockName accountID idx;
          sid = (if falsy (ls key) then newRandomSessionID accountID nonce else the (ls key))
      in \<lparr> slot = idx, sessionID = sid, storage = ls(key \<mapsto> sid) \<rparr>)"

text \<open>
  The two nested \<^verbatim>\<open>for\<close> loops, started at \<open>idx\<close> and \<open>retry\<close>.
  \<^verbatim>\<open>navigator.locks.request(name, {ifAvailable: true}, ...)\<close> is the environment's:
  \<open>available n name\<close> tells whether the \<open>n\<close>-th request of the call (counted from 0), which
  asks for \<open>name\<close>, finds the lock free. The result is the list of lock names requested, in
  order, and either the session resolved or the error thrown after the last slot.
\<close>

function trySlots ::
  "(nat \<Rightarrow> string \<Rightarrow> bool) \<Rightarrow> string \<Rightarrow> string \<Rightarrow> localStorage \<Rightarrow> nat \<Rightarrow> nat
     \<Rightarrow> string list \<times> (error + session_result)" where
  "trySlots available accountID nonce ls idx retry =
     (if idx < 100 then
        (if retry < 2 then
           (if available (2 * idx + retry) (lockName accountID idx)
            then ([lockName accountID idx], Inr (lockGranted accountID nonce idx ls))
            else (let (names, res) = trySlots available accountID nonce ls idx (retry + 1)
                  in (lockName accountID idx # names, res)))
         else trySlots available accountID nonce ls (idx + 1) 0)
      else ([], Inl (Error ''Couldn't get lock on session after 100x2 tries'')))"
  by pat_completeness auto
termination
  by (relation "measure (\<lambda>(available, accountID, nonce, ls, idx, retry).
                            3 * (100 - idx) + (2 - retry))") auto

declare trySlots.simps [simp del]

definition getSessionHandleFor ::
  "(nat \<Rightarrow> string \<Rightarrow> bool) \<Rightarrow> string \<Rightarrow> string \<Rightarrow> localStorage
     \<Rightarrow> string list \<times> (error + session_result)" where
  "getSessionHandleFor available accountID nonce ls = trySlots available accountID nonce ls 0 0"


section \<open>Binary streams from blobs: createBinaryStreamFromBlob\<close>

type_synonym byte = "8 word"

text \<open>
  A \<^verbatim>\<open>Blob\<close>: its MIME type and its bytes (\<^verbatim>\<open>blob.size\<close> is their number); for a
  \<^verbatim>\<open>File\<close>, also its name.
\<close>

record blob =
  blob_type :: string
  blob_bytes :: "byte list"
  blob_name :: "string option"

definition blob_size :: "blob \<Rightarrow> nat" where
  "blob_size b = length (blob_bytes b)"

record binaryStreamInfo =
  mimeType :: string
  totalSizeBytes :: nat
  fileName :: "string option"

text \<open>The calls made on the binary stream, in order.\<close>

datatype binaryStreamOp =
    StartBinaryStream binaryStreamInfo
  | PushBinaryStreamChunk "byte list"
  | EndBinaryStream

text \<open>
  Modelled from the spec: the constant \<^verbatim>\<open>MAX_RECOMMENDED_TX_SIZE\<close> (package cojson, not
  among the sources), about 100 KiB.
\<close>

definition MAX_RECOMMENDED_TX_SIZE :: nat where
  "MAX_RECOMMENDED_TX_SIZE = 100 * 1024"

text \<open>\<^verbatim>\<open>Uint8Array.prototype.slice(start, end)\<close> for \<open>start \<le> end\<close>: the end is clamped.\<close>

definition uint8_slice :: "byte list \<Rightarrow> nat \<Rightarrow> nat \<Rightarrow> byte list" where
  "uint8_slice data start end = take (end - start) (drop start data)"

text \<open>The \<^verbatim>\<open>for\<close> loop over the data, from \<open>idx\<close>: the chunks it pushes.\<close>

function pushChunks :: "byte list \<Rightarrow> nat \<Rightarrow> byte list list" where
  "pushChunks data idx =
     (if idx < length data
      then uint8_slice data idx (idx + MAX_RECOMMENDED_TX_SIZE)
           # pushChunks data (idx + MAX_RECOMMENDED_TX_SIZE)
      else [])"
  by pat_completeness auto
termination
  by (relation "measure (\<lambda>(data, idx). length data - idx)")
     (auto simp: MAX_RECOMMENDED_TX_SIZE_def)

declare pushChunks.simps [simp del]

definition createBinaryStreamFromBlob :: "blob \<Rightarrow> binaryStreamOp list" where
  "createBinaryStreamFromBlob b =
     (let data = blob_bytes b
      in [StartBinaryStream
            \<lparr> mimeType = blob_type b, totalSizeBytes = blob_size b, fileName = blob_name b \<rparr>]
         @ map PushBinaryStreamChunk (pushChunks data 0)
         @ [EndBinaryStream])"


section \<open>WebSocket peer: the incoming stream (websocketReadableStream)\<close>

datatype json =
    JNull
  | JBool bool
  | JNumber int
  | JString string
  | JArray "json list"
  | JObject "(string \<times> json) list"

text \<open>
  \<^verbatim>\<open>msg.type\<close> for a parsed JSON value: reading a property of \<^verbatim>\<open>null\<close> throws a
  \<^verbatim>\<open>TypeError\<close>; a record gives the value of its field \<^verbatim>\<open>type\<close>, or \<^verbatim>\<open>undefined\<close>
  (\<open>None\<close>) without one; every other value gives \<^verbatim>\<open>undefined\<close>.
\<close>

fun msg_type :: "json \<Rightarrow> error + json option" where
  "msg_type JNull = Inl TypeError"
| "msg_type (JObject fs) = Inr (map_of fs ''type'')"
| "msg_type v = Inr None"

text \<open>\<^verbatim>\<open>msg.type === "ping"\<close>.\<close>

definition isPing :: "json \<Rightarrow> bool" where
  "isPing msg = (msg_type msg = Inr (Some (JString ''ping'')))"

datatype readyState = CONNECTING | OPEN | CLOSING | CLOSED

text \<open>
  The stream controller can take chunks and be closed while it is \<open>Readable\<close>; after
  \<^verbatim>\<open>close()\<close> or a cancellation it is \<open>CloseRequested\<close>, after \<^verbatim>\<open>error()\<close> it is
  \<open>Errored\<close>, and \<^verbatim>\<open>enqueue\<close> and \<^verbatim>\<open>close\<close> then throw a \<^verbatim>\<open>TypeError\<close>.
\<close>

datatype controllerState = Readable | CloseRequested | Errored

text \<open>
  The state that the handlers installed by \<^verbatim>\<open>start(controller)\<close> share: the pending ping
  timer (the time in milliseconds at which it expires), the controller, the values passed
  to \<^verbatim>\<open>controller.enqueue\<close> so far, the socket's ready state, and whether the close
  listener is still registered.
\<close>

record incoming =
  pingTimeout :: "nat option"
  controller :: controllerState
  enqueued :: "json list"
  readyState :: readyState
  closeListenerAdded :: bool

definition controller_close :: "incoming \<Rightarrow> error + incoming" where
  "controller_close s =
     (if controller s = Readable then Inr (s\<lparr> controller := CloseRequested \<rparr>) else Inl TypeError)"

definition controller_enqueue :: "json \<Rightarrow> incoming \<Rightarrow> error + incoming" where
  "controller_enqueue msg s =
     (if controller s = Readable then Inr (s\<lparr> enqueued := enqueued s @ [msg] \<rparr>) else Inl TypeError)"

definition controller_error :: "incoming \<Rightarrow> incoming" where
  "controller_error s = (if controller s = Readable then s\<lparr> controller := Errored \<rparr> else s)"

definition ws_close :: "incoming \<Rightarrow> incoming" where
  "ws_close s =
     (if readyState s = CLOSING \<or> readyState s = CLOSED then s else s\<lparr> readyState := CLOSING \<rparr>)"

text \<open>
  \<^verbatim>\<open>ws.onmessage\<close> at time \<open>now\<close>, for an event with the data \<open>data\<close>.
  \<open>JSON_parse\<close> is \<^verbatim>\<open>JSON.parse\<close> on the event's data (\<open>None\<close>: it throws a
  \<^verbatim>\<open>SyntaxError\<close>, as for a binary frame or a text that is not JSON). After parsing, the
  pending timer is cleared and a new one set for 2500 ms later; a ping returns; every other
  message goes to \<^verbatim>\<open>controller.enqueue\<close>. The second component is the exception the
  handler ends with, if any.
\<close>

definition onmessage ::
  "('d \<Rightarrow> json option) \<Rightarrow> nat \<Rightarrow> 'd \<Rightarrow> incoming \<Rightarrow> incoming \<times> error option" where
  "onmessage JSON_parse now data s =
     (case JSON_parse data of
        None \<Rightarrow> (s, Some SyntaxError)
      | Some msg \<Rightarrow>
          (let s1 = s\<lparr> pingTimeout := Some (now + 2500) \<rparr>
           in case msg_type msg of
                Inl e \<Rightarrow> (s1, Some e)
              | Inr t \<Rightarrow>
                  if t = Some (JString ''ping'') then (s1, None)
                  else (case controller_enqueue msg s1 of
                          Inl e \<Rightarrow> (s1, Some e)
                        | Inr s2 \<Rightarrow> (s2, None))))"

text \<open>
  The timer's callback: \<^verbatim>\<open>controller.close(); ws.close()\<close> inside \<^verbatim>\<open>try\<close>; an exception
  of \<^verbatim>\<open>controller.close()\<close> skips \<^verbatim>\<open>ws.close()\<close> and is logged.
\<close>

definition pingTimeoutCallback :: "incoming \<Rightarrow> incoming" where
  "pingTimeoutCallback s =
     (let s0 = s\<lparr> pingTimeout := None \<rparr>
      in case controller_close s0 of
           Inl e \<Rightarrow> s0
         | Inr s1 \<Rightarrow> ws_close s1)"

definition closeListener :: "incoming \<Rightarrow> incoming \<times> error option" where
  "closeListener s =
     (case controller_close s of
        Inl e \<Rightarrow> (s, Some e)
      | Inr s1 \<Rightarrow> (s1\<lparr> pingTimeout := None \<rparr>, None))"

definition errorListener :: "incoming \<Rightarrow> incoming" where
  "errorListener s = (controller_error s)\<lparr> closeListenerAdded := False \<rparr>"

definition cancel :: "incoming \<Rightarrow> incoming" where
  "cancel s = ws_close s"

text \<open>
  What the platform does with the stream: the socket opens; a message arrives at a time (the
  socket delivers messages only while it is open); the pending timer expires; the
  connection closes (the ready state becomes \<open>CLOSED\<close>, then \<^verbatim>\<open>close\<close> is fired); the
  connection fails (\<open>CLOSED\<close>, then \<^verbatim>\<open>error\<close> and \<^verbatim>\<open>close\<close> are fired); the consumer
  cancels the stream (a readable stream is closed, then the source's \<^verbatim>\<open>cancel\<close> runs).
\<close>

datatype 'd incomingEvent =
    WsOpened
  | Message nat 'd
  | PingTimeoutExpired
  | WsClosed
  | WsFailed
  | StreamCancelled

definition fireClose :: "incoming \<Rightarrow> incoming" where
  "fireClose s = (if closeListenerAdded s then fst (closeListener s) else s)"

fun incomingStep :: "('d \<Rightarrow> json option) \<Rightarrow> incoming \<Rightarrow> 'd incomingEvent \<Rightarrow> incoming" where
  "incomingStep JSON_parse s WsOpened =
     (if readyState s = CONNECTING then s\<lparr> readyState := OPEN \<rparr> else s)"
| "incomingStep JSON_parse s (Message now data) =
     (if readyState s = OPEN then fst (onmessage JSON_parse now data s) else s)"
| "incomingStep JSON_parse s PingTimeoutExpired =
     (if pingTimeout s \<noteq> None then pingTimeoutCallback s else s)"
| "incomingStep JSON_parse s WsClosed =
     (if readyState s = CLOSED then s else fireClose (s\<lparr> readyState := CLOSED \<rparr>))"
| "incomingStep JSON_parse s WsFailed =
     (if readyState s = CLOSED then s
      else fireClose (errorListener (s\<lparr> readyState := CLOSED \<rparr>)))"
| "incomingStep JSON_parse s StreamCancelled =
     (if controller s = Readable then cancel (s\<lparr> controller := CloseRequested \<rparr>) else s)"

definition websocketReadableStream :: incoming where
  "websocketReadableStream =
     \<lparr> pingTimeout = None, controller = Readable, enqueued = [],
       readyState = CONNECTING, closeListenerAdded = True \<rparr>"

definition incomingRun :: "('d \<Rightarrow> json option) \<Rightarrow> 'd incomingEvent list \<Rightarrow> incoming" where
  "incomingRun JSON_parse evs = foldl (incomingStep JSON_parse) websocketReadableStream evs"


section \<open>Passphrase authentication: signUp and logIn\<close>










section \<open>The cryptographic envelope of cojson\<close>

text \<open>
  The package's crypto module is not among the sources; its tests are. The definitions of
  this section follow the spec's contracts (sections 4.1 and 4.2). The primitives are taken
  in their ideal form, as in symbolic protocol models: a hash names the text hashed, a
  public identifier names the secret it belongs to, a signature names its signer and the
  hash signed, and an authenticated ciphertext opens under the key and nonce it was made
  with and under no other.
\<close>

text \<open>
  Modelled from the spec: the canonical encoding \<^verbatim>\<open>stableStringify\<close> (section 4.2): object
  keys sorted lexicographically at every depth, arrays left in order. The encoded text is
  represented by the value with sorted fields, which determines it.
\<close>

fun canonical :: "json \<Rightarrow> json" where
  "canonical (JArray xs) = JArray (map canonical xs)"
| "canonical (JObject fs) = JObject (sort_key fst (map (\<lambda>(k, v). (k, canonical v)) fs))"
| "canonical v = v"

text \<open>
  The same JSON value presented with object keys in another insertion order, at any depth:
  the elements of an array, in order, are reorderings of each other; the fields of an
  object, whose keys are distinct, are those of the other object with reordered values, in
  any order.
\<close>

inductive reordered :: "json \<Rightarrow> json \<Rightarrow> bool" where
  same: "reordered v v"
| elements: "list_all2 reordered xs ys \<Longrightarrow> reordered (JArray xs) (JArray ys)"
| fields:
    "distinct (map fst fs) \<Longrightarrow>
     list_all2 (\<lambda>f h. fst f = fst h \<and> reordered (snd f) (snd h)) fs hs \<Longrightarrow>
     mset gs = mset hs \<Longrightarrow>
     reordered (JObject fs) (JObject gs)"

code_pred reordered .

text \<open>
  Modelled from the spec: \<^verbatim>\<open>secureHash(value)\<close>, that is \<^verbatim>\<open>blake3(canonical(value))\<close>;
  the ideal hash \<open>Blake3\<close> names the canonical text.
\<close>

datatype hash = Blake3 json

definition secureHash :: "json \<Rightarrow> hash" where
  "secureHash v = Blake3 (canonical v)"

type_synonym signerSecret = string

text \<open>
  Modelled from the spec: \<^verbatim>\<open>getSignerID\<close>, the public half \<^verbatim>\<open>id(k)\<close> of a signer
  secret; the ideal Ed25519 public key names its secret.
\<close>

datatype signerID = SignerID signerSecret

definition getSignerID :: "signerSecret \<Rightarrow> signerID" where
  "getSignerID secret = SignerID secret"

text \<open>
  Modelled from the spec: \<^verbatim>\<open>sign(signerSecret, payload)\<close>; the payload is canonicalised
  and hashed, and the ideal Ed25519 signature names the signer's secret and that hash.
\<close>

datatype signature = Signature signerSecret hash

definition sign :: "signerSecret \<Rightarrow> json \<Rightarrow> signature" where
  "sign secret message = Signature secret (secureHash message)"

text \<open>
  Modelled from the spec: \<^verbatim>\<open>verify(sig, payload, signerID)\<close>; true when the signature
  was made by the secret of the signer ID over the hash of the canonical payload.
\<close>

fun verify :: "signature \<Rightarrow> json \<Rightarrow> signerID \<Rightarrow> bool" where
  "verify (Signature secret h) message (SignerID signer) =
     (secret = signer \<and> h = secureHash message)"

type_synonym keySecret = string

text \<open>
  Modelled from the spec: the nonce, the first 24 bytes of
  \<^verbatim>\<open>blake3(canonical(nonceMaterial))\<close>.
\<close>

definition nOnce :: "json \<Rightarrow> hash" where
  "nOnce nOnceMaterial = secureHash nOnceMaterial"

text \<open>
  Modelled from the spec: XSalsa20-Poly1305 authenticated encryption in its ideal form. A
  box records the key, the nonce and the plaintext; opening it with another key or nonce
  fails the tag check, which the primitive reports as \<^verbatim>\<open>Wrong tag\<close>.
\<close>

datatype ('k, 'p) sealedBox = SealedBox 'k hash 'p

fun xsalsa20_poly1305_decrypt :: "'k \<Rightarrow> hash \<Rightarrow> ('k, 'p) sealedBox \<Rightarrow> error + 'p" where
  "xsalsa20_poly1305_decrypt k n (SealedBox k0 n0 plaintext) =
     (if k = k0 \<and> n = n0 then Inr plaintext else Inl (Error ''Wrong tag''))"

text \<open>
  Modelled from the spec: \<^verbatim>\<open>encryptForTransaction(changes, keySecret, nonceMaterial)\<close>.
\<close>

definition encryptForTransaction ::
  "json \<Rightarrow> keySecret \<Rightarrow> json \<Rightarrow> (keySecret, json) sealedBox" where
  "encryptForTransaction changes keySecret nOnceMaterial =
     SealedBox keySecret (nOnce nOnceMaterial) (canonical changes)"

text \<open>
  Modelled from the spec: \<^verbatim>\<open>decryptForTransaction\<close>; it returns \<^verbatim>\<open>undefined\<close>
  (\<open>None\<close>) on MAC failure, without an exception.
\<close>

definition decryptForTransaction ::
  "(keySecret, json) sealedBox \<Rightarrow> keySecret \<Rightarrow> json \<Rightarrow> json option" where
  "decryptForTransaction ciphertext keySecret nOnceMaterial =
     (case xsalsa20_poly1305_decrypt keySecret (nOnce nOnceMaterial) ciphertext of
        Inl e \<Rightarrow> None
      | Inr plaintext \<Rightarrow> Some plaintext)"

text \<open>A key secret with its ID, as \<^verbatim>\<open>newRandomKeySecret\<close> returns it, and a wrapped key.\<close>

record key =
  key_id :: string
  key_secret :: keySecret

record wrappedKey =
  encryptedID :: string
  encryptingID :: string
  encrypted :: "(keySecret, keySecret) sealedBox"

text \<open>
  Modelled from the spec: the nonce material of a wrapped key, the IDs of the two keys.
\<close>

definition keyNOnceMaterial :: "string \<Rightarrow> string \<Rightarrow> json" where
  "keyNOnceMaterial encrypted_id encrypting_id =
     JObject [(''encryptedID'', JString encrypted_id), (''encryptingID'', JString encrypting_id)]"

text \<open>Modelled from the spec: \<^verbatim>\<open>encryptKeySecret({toEncrypt, encrypting})\<close>.\<close>

definition encryptKeySecret :: "key \<Rightarrow> key \<Rightarrow> wrappedKey" where
  "encryptKeySecret toEncrypt encrypting =
     \<lparr> encryptedID = key_id toEncrypt, encryptingID = key_id encrypting,
       encrypted = SealedBox (key_secret encrypting)
                     (nOnce (keyNOnceMaterial (key_id toEncrypt) (key_id encrypting)))
                     (key_secret toEncrypt) \<rparr>"

text \<open>
  Modelled from the spec: \<^verbatim>\<open>decryptKeySecret(wrapped, encrypting)\<close>, the secret or
  \<^verbatim>\<open>undefined\<close>.
\<close>

definition decryptKeySecret :: "wrappedKey \<Rightarrow> keySecret \<Rightarrow> keySecret option" where
  "decryptKeySecret wrapped sealingSecret =
     (case xsalsa20_poly1305_decrypt sealingSecret
             (nOnce (keyNOnceMaterial (encryptedID wrapped) (encryptingID wrapped)))
             (encrypted wrapped) of
        Inl e \<Rightarrow> None
      | Inr secret \<Rightarrow> Some secret)"

type_synonym sealerSecret = string

text \<open>
  Modelled from the spec: \<^verbatim>\<open>getSealerID\<close>, the public half of a sealer secret; the ideal
  X25519 public key names its secret.
\<close>

datatype sealerID = SealerID sealerSecret

definition getSealerID :: "sealerSecret \<Rightarrow> sealerID" where
  "getSealerID secret = SealerID secret"

text \<open>
  Modelled from the spec: X25519 key agreement in its ideal form; the secret shared by two
  parties is determined by the pair of them, whichever side computes it.
\<close>

fun x25519_getSharedSecret :: "sealerSecret \<Rightarrow> sealerID \<Rightarrow> sealerSecret set" where
  "x25519_getSharedSecret secret (SealerID other) = {secret, other}"

text \<open>
  Modelled from the spec: \<^verbatim>\<open>seal({message, from: sealerSecret, to: sealerID,
  nonceMaterial})\<close>, X25519 key agreement followed by XSalsa20-Poly1305.
\<close>

definition seal ::
  "json \<Rightarrow> sealerSecret \<Rightarrow> sealerID \<Rightarrow> json \<Rightarrow> (sealerSecret set, json) sealedBox" where
  "seal message sender recipient nOnceMaterial =
     SealedBox (x25519_getSharedSecret sender recipient) (nOnce nOnceMaterial) (canonical message)"

text \<open>
  Modelled from the spec: \<^verbatim>\<open>unseal\<close>, the message or the failure \<^verbatim>\<open>Wrong tag\<close>, which
  is raised to the caller.
\<close>

definition unseal ::
  "(sealerSecret set, json) sealedBox \<Rightarrow> sealerSecret \<Rightarrow> sealerID \<Rightarrow> json \<Rightarrow> error + json" where
  "unseal sealed sealer sender nOnceMaterial =
     xsalsa20_poly1305_decrypt (x25519_getSharedSecret sealer sender) (nOnce nOnceMaterial) sealed"


section \<open>Properties of the reconnection loop\<close>

lemma loopDisconnected_waits:
  "waits (loopDisconnected s) = waits s @ [min (currentReconnectionTimeout s * 2) 30000]"
  by (simp add: loopDisconnected_def Let_def)

lemma loopDisconnected_current:
  "currentReconnectionTimeout (loopDisconnected s) = min (currentReconnectionTimeout s * 2) 30000"
  by (simp add: loopDisconnected_def Let_def)

lemma reconnectStep_waits_bounded:
  assumes "\<forall>w \<in> set (waits s). w \<le> 30000"
  shows "\<forall>w \<in> set (waits (reconnectStep init s e)). w \<le> 30000"
  using assms by (cases e) (auto simp: onOnline_def loopDisconnected_def Let_def)

lemma foldl_waits_bounded:
  assumes "\<forall>w \<in> set (waits s). w \<le> 30000"
  shows "\<forall>w \<in> set (waits (foldl (reconnectStep init) s evs)). w \<le> 30000"
  using assms
proof (induction evs arbitrary: s)
  case Nil
  then show ?case by simp
next
  case (Cons e evs)
  have "\<forall>w \<in> set (waits (reconnectStep init s e)). w \<le> 30000"
    using Cons.prems by (rule reconnectStep_waits_bounded)
  then show ?case using Cons.IH by simp
qed

lemma doubling_capped:
  "min (min (c * 2 ^ n) 30000 * 2) (30000::int) = min (c * 2 ^ Suc n) 30000"
  by (simp add: min_def)

lemma failedAttempts_Suc:
  "failedAttempts (Suc n) s = loopDisconnected (failedAttempts n s)"
  by (induction n arbitrary: s) simp_all

lemma failedAttempts_closed_form:
  "waits (failedAttempts n s) =
     waits s @ map (\<lambda>k. min (currentReconnectionTimeout s * 2 ^ k) 30000) [1 ..< Suc n]
   \<and> currentReconnectionTimeout (failedAttempts n s) =
     (if n = 0 then currentReconnectionTimeout s
      else min (currentReconnectionTimeout s * 2 ^ n) 30000)"
proof (induction n)
  case 0
  show ?case by simp
next
  case (Suc n)
  have step: "min (currentReconnectionTimeout (failedAttempts n s) * 2) 30000
              = min (currentReconnectionTimeout s * 2 ^ Suc n) 30000"
  proof (cases "n = 0")
    case True
    then show ?thesis by simp
  next
    case False
    then show ?thesis using Suc.IH doubling_capped [of "currentReconnectionTimeout s" n]
      by simp
  qed
  have w: "waits (failedAttempts (Suc n) s)
           = waits (failedAttempts n s) @ [min (currentReconnectionTimeout s * 2 ^ Suc n) 30000]"
    unfolding failedAttempts_Suc loopDisconnected_waits step ..
  have c: "currentReconnectionTimeout (failedAttempts (Suc n) s)
           = min (currentReconnectionTimeout s * 2 ^ Suc n) 30000"
    unfolding failedAttempts_Suc loopDisconnected_current step ..
  show ?case using Suc.IH w c by simp
qed

lemma failedAttempts_foldl:
  "shouldTryToReconnect s \<Longrightarrow>
   foldl (reconnectStep init) s (replicate n LoopDisconnected) = failedAttempts n s"
proof (induction n arbitrary: s)
  case 0
  show ?case by simp
next
  case (Suc n)
  have "shouldTryToReconnect (loopDisconnected s)"
    using Suc.prems by (simp add: loopDisconnected_def Let_def)
  then show ?case using Suc.prems Suc.IH [of "loopDisconnected s"] by simp
qed

lemma reconnectStep_flags:
  "e \<noteq> DoneCalled \<Longrightarrow>
   shouldTryToReconnect (reconnectStep init s e) = shouldTryToReconnect s \<and>
   onlineListening (reconnectStep init s e) = onlineListening s"
  by (cases e) (simp_all add: onOnline_def loopDisconnected_def Let_def)

lemma foldl_flags:
  "DoneCalled \<notin> set evs \<Longrightarrow>
   shouldTryToReconnect (foldl (reconnectStep init) s evs) = shouldTryToReconnect s \<and>
   onlineListening (foldl (reconnectStep init) s evs) = onlineListening s"
proof (induction evs arbitrary: s)
  case Nil
  show ?case by simp
next
  case (Cons e evs)
  then have "e \<noteq> DoneCalled" and "DoneCalled \<notin> set evs" by auto
  then show ?case using Cons.IH [of "reconnectStep init s e"] reconnectStep_flags [of e init s]
    by simp
qed

lemma reconnectRun_flags:
  "DoneCalled \<notin> set evs \<Longrightarrow>
   shouldTryToReconnect (reconnectRun init evs) \<and> onlineListening (reconnectRun init evs)"
  using foldl_flags [of evs init "initialState init"]
  by (simp add: reconnectRun_def initialState_def)

lemma reconnectRun_append:
  "reconnectRun init (evs @ evs') = foldl (reconnectStep init) (reconnectRun init evs) evs'"
  by (simp add: reconnectRun_def)

text \<open>
  Claim C2. While the node handle is live (\<^verbatim>\<open>done\<close> has not been called), for every
  history of events: every delay the loop has waited is at most 30000 ms; the delay before
  the next reconnection attempt is the current timeout doubled and capped at 30000, and
  becomes the new current timeout; \<open>n\<close> consecutive failed attempts wait the current
  timeout times \<open>2 ^ k\<close>, capped at 30000, for \<open>k = 1 .. n\<close>; and an \<^verbatim>\<open>online\<close> event
  sets the current timeout back to the initial reconnection timeout, whose default is 500.
\<close>

theorem reconnect_backoff_capped_and_reset:
  assumes "DoneCalled \<notin> set evs"
  shows "(\<forall>w \<in> set (waits (reconnectRun init evs)). w \<le> 30000)
    \<and> waits (reconnectRun init (evs @ [LoopDisconnected])) =
        waits (reconnectRun init evs) @
          [min (currentReconnectionTimeout (reconnectRun init evs) * 2) 30000]
    \<and> currentReconnectionTimeout (reconnectRun init (evs @ [LoopDisconnected])) =
        min (currentReconnectionTimeout (reconnectRun init evs) * 2) 30000
    \<and> waits (reconnectRun init (evs @ replicate n LoopDisconnected)) =
        waits (reconnectRun init evs) @
          map (\<lambda>k. min (currentReconnectionTimeout (reconnectRun init evs) * 2 ^ k) 30000)
            [1 ..< Suc n]
    \<and> currentReconnectionTimeout (reconnectRun init (evs @ [OnlineEvent])) = init
    \<and> currentReconnectionTimeout (initialState defaultReconnectionTimeout) = 500"
proof -
  let ?s = "reconnectRun init evs"
  have flags: "shouldTryToReconnect ?s" "onlineListening ?s"
    using assms reconnectRun_flags by blast+
  have bounded: "\<forall>w \<in> set (waits ?s). w \<le> 30000"
    unfolding reconnectRun_def
    by (rule foldl_waits_bounded) (simp add: initialState_def)
  have one_w: "waits (reconnectRun init (evs @ [LoopDisconnected])) =
        waits ?s @ [min (currentReconnectionTimeout ?s * 2) 30000]"
    using flags by (simp add: reconnectRun_append loopDisconnected_waits)
  have one_c: "currentReconnectionTimeout (reconnectRun init (evs @ [LoopDisconnected])) =
        min (currentReconnectionTimeout ?s * 2) 30000"
    using flags by (simp add: reconnectRun_append loopDisconnected_current)
  have many: "waits (reconnectRun init (evs @ replicate n LoopDisconnected)) =
        waits ?s @ map (\<lambda>k. min (currentReconnectionTimeout ?s * 2 ^ k) 30000) [1 ..< Suc n]"
    using flags failedAttempts_closed_form [of n ?s]
    by (simp only: reconnectRun_append failedAttempts_foldl)
  have reset: "currentReconnectionTimeout (reconnectRun init (evs @ [OnlineEvent])) = init"
    using flags by (simp add: reconnectRun_append onOnline_def)
  have dflt: "currentReconnectionTimeout (initialState defaultReconnectionTimeout) = 500"
    by (simp add: initialState_def defaultReconnectionTimeout_def)
  show ?thesis using bounded one_w one_c many reset dflt by blast
qed

theorem reconnect_backoff_capped_and_reset_witness:
  "DoneCalled \<notin> set [LoopDisconnected, LoopDisconnected, OnlineEvent]
   \<and> waits (reconnectRun 500
        ([LoopDisconnected, LoopDisconnected, OnlineEvent] @ replicate 7 LoopDisconnected)) =
      [1000, 2000, 1000, 2000, 4000, 8000, 16000, 30000, 30000]
   \<and> currentReconnectionTimeout
        (reconnectRun 500 ([LoopDisconnected, LoopDisconnected, OnlineEvent] @ [OnlineEvent])) = 500"
proof -
  have h: "DoneCalled \<notin> set [LoopDisconnected, LoopDisconnected, OnlineEvent]" by simp
  have run: "reconnectRun 500 [LoopDisconnected, LoopDisconnected, OnlineEvent] =
        \<lparr> currentReconnectionTimeout = 500, shouldTryToReconnect = True,
          onlineListening = True, waits = [1000, 2000] \<rparr>"
    by (simp add: reconnectRun_def initialState_def loopDisconnected_def onOnline_def Let_def)
  have up: "[1 ..< Suc 7] = [1, 2, 3, 4, 5, 6, 7]" by code_simp
  show ?thesis
    using h reconnect_backoff_capped_and_reset [OF h, of 500 7]
    by (simp only: run up) simp
qed


section \<open>Properties of invite links\<close>

lemma split_not_Nil: "split sep s \<noteq> []"
  by (induction s) (auto split: list.splits)

lemma split_no_sep: "sep \<notin> set p \<Longrightarrow> split sep p = [p]"
  by (induction p) auto

lemma split_append_sep:
  "sep \<notin> set p \<Longrightarrow> split sep (p @ sep # t) = p # split sep t"
  by (induction p) auto

lemma split_hd_prefix: "split sep s = p # ps \<Longrightarrow> prefix p s"
proof (induction s arbitrary: p ps)
  case Nil
  then show ?case by simp
next
  case (Cons c cs)
  show ?case
  proof (cases "c = sep")
    case True
    with Cons.prems show ?thesis by simp
  next
    case False
    obtain q qs where q: "split sep cs = q # qs"
      using split_not_Nil [of sep cs] by (cases "split sep cs") auto
    with False Cons.prems have "p = c # q" by simp
    moreover have "prefix q cs" using Cons.IH q by blast
    ultimately show ?thesis by simp
  qed
qed

lemma split_Cons_Cons:
  "split sep s = p # q # rest \<Longrightarrow> \<exists>t. s = p @ sep # t \<and> split sep t = q # rest"
proof (induction s arbitrary: p)
  case Nil
  then show ?case by simp
next
  case (Cons c cs)
  show ?case
  proof (cases "c = sep")
    case True
    with Cons.prems show ?thesis by simp
  next
    case False
    obtain u us where u: "split sep cs = u # us"
      using split_not_Nil [of sep cs] by (cases "split sep cs") auto
    with False Cons.prems have p: "p = c # u" and us: "us = q # rest" by simp_all
    from Cons.IH [of u] u us obtain t where "cs = u @ sep # t" "split sep t = q # rest"
      by blast
    with p show ?thesis by simp
  qed
qed

lemma split_invite_prefix:
  assumes "part (split CHR ''/'' h) 0 = Some ''#''" and "part (split CHR ''/'' h) 1 = Some ''invite''"
  shows "prefix ''#/invite'' h"
proof -
  obtain rest where sp: "split CHR ''/'' h = ''#'' # ''invite'' # rest"
    using assms by (cases "split CHR ''/'' h"; cases "tl (split CHR ''/'' h)")
      (auto simp: part_def split: if_splits)
  then obtain t where t: "h = ''#'' @ CHR ''/'' # t" "split CHR ''/'' t = ''invite'' # rest"
    using split_Cons_Cons by blast
  then have "prefix ''invite'' t" using split_hd_prefix by blast
  then obtain t' where "t = ''invite'' @ t'" by (auto simp: prefix_def)
  with t(1) show ?thesis by (simp add: prefix_def)
qed

lemma parseInviteParts_five:
  "parseInviteParts [''#'', ''invite'', hint, vid, sec] =
     (if vid = [] \<or> sec = [] then None
      else Some \<lparr> valueID = vid, inviteSecret = sec, valueHint = Some hint \<rparr>)"
  by (simp add: parseInviteParts_def part_def falsy_def)

lemma parseInviteParts_four:
  "parseInviteParts [''#'', ''invite'', vid, sec] =
     (if vid = [] \<or> sec = [] then None
      else Some \<lparr> valueID = vid, inviteSecret = sec, valueHint = None \<rparr>)"
  by (simp add: parseInviteParts_def part_def falsy_def)

lemma parseInviteParts_other_length:
  "length parts \<noteq> 4 \<Longrightarrow> length parts \<noteq> 5 \<Longrightarrow> parseInviteParts parts = None"
  by (simp add: parseInviteParts_def falsy_def)

lemma parseInviteParts_not_invite:
  "\<not> (part parts 0 = Some ''#'' \<and> part parts 1 = Some ''invite'') \<Longrightarrow> parseInviteParts parts = None"
  by (simp add: parseInviteParts_def)

lemma split_five:
  assumes "CHR ''/'' \<notin> set hint" "CHR ''/'' \<notin> set vid" "CHR ''/'' \<notin> set sec"
  shows "split CHR ''/'' (''#/invite/'' @ hint @ ''/'' @ vid @ ''/'' @ sec) =
         [''#'', ''invite'', hint, vid, sec]"
proof -
  have "split CHR ''/'' (''#/invite/'' @ hint @ ''/'' @ vid @ ''/'' @ sec) =
        ''#'' # ''invite'' # split CHR ''/'' (hint @ CHR ''/'' # vid @ CHR ''/'' # sec)"
    by simp
  also have "split CHR ''/'' (hint @ CHR ''/'' # vid @ CHR ''/'' # sec) =
        hint # split CHR ''/'' (vid @ CHR ''/'' # sec)"
    using assms(1) by (rule split_append_sep)
  also have "split CHR ''/'' (vid @ CHR ''/'' # sec) = vid # split CHR ''/'' sec"
    using assms(2) by (rule split_append_sep)
  also have "split CHR ''/'' sec = [sec]"
    using assms(3) by (rule split_no_sep)
  finally show ?thesis .
qed

lemma split_four:
  assumes "CHR ''/'' \<notin> set vid" "CHR ''/'' \<notin> set sec"
  shows "split CHR ''/'' (''#/invite/'' @ vid @ ''/'' @ sec) = [''#'', ''invite'', vid, sec]"
proof -
  have "split CHR ''/'' (''#/invite/'' @ vid @ ''/'' @ sec) =
        ''#'' # ''invite'' # split CHR ''/'' (vid @ CHR ''/'' # sec)"
    by simp
  also have "split CHR ''/'' (vid @ CHR ''/'' # sec) = vid # split CHR ''/'' sec"
    using assms(1) by (rule split_append_sep)
  also have "split CHR ''/'' sec = [sec]"
    using assms(2) by (rule split_no_sep)
  finally show ?thesis .
qed

lemma parseInviteLink_five:
  assumes "url_hash inviteURL = Inr (''#/invite/'' @ hint @ ''/'' @ vid @ ''/'' @ sec)"
    and "CHR ''/'' \<notin> set hint" "CHR ''/'' \<notin> set vid" "CHR ''/'' \<notin> set sec"
  shows "parseInviteLink url_hash inviteURL =
         Inr (if vid = [] \<or> sec = [] then None
              else Some \<lparr> valueID = vid, inviteSecret = sec, valueHint = Some hint \<rparr>)"
  using assms(1) split_five [OF assms(2-4)]
  by (simp only: parseInviteLink_def sum.case parseInviteParts_five)

lemma parseInviteLink_four:
  assumes "url_hash inviteURL = Inr (''#/invite/'' @ vid @ ''/'' @ sec)"
    and "CHR ''/'' \<notin> set vid" "CHR ''/'' \<notin> set sec"
  shows "parseInviteLink url_hash inviteURL =
         Inr (if vid = [] \<or> sec = [] then None
              else Some \<lparr> valueID = vid, inviteSecret = sec, valueHint = None \<rparr>)"
  using assms(1) split_four [OF assms(2,3)]
  by (simp only: parseInviteLink_def sum.case parseInviteParts_four)

lemma parseInviteLink_other:
  assumes "url_hash inviteURL = Inr h"
    and "\<not> prefix ''#/invite'' h
         \<or> (length (split CHR ''/'' h) \<noteq> 4 \<and> length (split CHR ''/'' h) \<noteq> 5)"
  shows "parseInviteLink url_hash inviteURL = Inr None"
proof -
  have res: "parseInviteLink url_hash inviteURL = Inr (parseInviteParts (split CHR ''/'' h))"
    using assms(1) by (simp add: parseInviteLink_def)
  from assms(2) show ?thesis
  proof
    assume "\<not> prefix ''#/invite'' h"
    then have "\<not> (part (split CHR ''/'' h) 0 = Some ''#''
                 \<and> part (split CHR ''/'' h) 1 = Some ''invite'')"
      using split_invite_prefix by blast
    then show ?thesis using parseInviteParts_not_invite res by simp
  next
    assume "length (split CHR ''/'' h) \<noteq> 4 \<and> length (split CHR ''/'' h) \<noteq> 5"
    then show ?thesis using parseInviteParts_other_length res by simp
  qed
qed

text \<open>
  Claim C3, amended. Let \<open>h\<close> be the hash of the URL. If \<open>h\<close> is
  \<^verbatim>\<open>#/invite/<valueHint>/<valueID>/<inviteSecret>\<close> (five pieces between slashes) with a
  value ID and an invite secret that are not empty, \<^verbatim>\<open>parseInviteLink\<close> returns the value
  ID, the invite secret and the value hint; if \<open>h\<close> is
  \<^verbatim>\<open>#/invite/<valueID>/<inviteSecret>\<close> (four pieces) with both not empty, it returns them
  with no value hint; when the value ID or the invite secret is empty in either form, when
  \<open>h\<close> does not start with \<^verbatim>\<open>#/invite\<close>, and when \<open>h\<close> has another number of pieces, it
  returns \<^verbatim>\<open>undefined\<close>.
\<close>

theorem parseInviteLink_by_fragment:
  assumes "url_hash inviteURL = Inr h"
  shows "(h = ''#/invite/'' @ hint @ ''/'' @ vid @ ''/'' @ sec
          \<and> CHR ''/'' \<notin> set hint \<and> CHR ''/'' \<notin> set vid \<and> CHR ''/'' \<notin> set sec
          \<longrightarrow> parseInviteLink url_hash inviteURL =
                Inr (if vid = [] \<or> sec = [] then None
                     else Some \<lparr> valueID = vid, inviteSecret = sec, valueHint = Some hint \<rparr>))
    \<and> (h = ''#/invite/'' @ vid @ ''/'' @ sec
          \<and> CHR ''/'' \<notin> set vid \<and> CHR ''/'' \<notin> set sec
          \<longrightarrow> parseInviteLink url_hash inviteURL =
                Inr (if vid = [] \<or> sec = [] then None
                     else Some \<lparr> valueID = vid, inviteSecret = sec, valueHint = None \<rparr>))
    \<and> (\<not> prefix ''#/invite'' h
          \<or> (length (split CHR ''/'' h) \<noteq> 4 \<and> length (split CHR ''/'' h) \<noteq> 5)
          \<longrightarrow> parseInviteLink url_hash inviteURL = Inr None)"
  using assms parseInviteLink_five [of url_hash inviteURL hint vid sec]
    parseInviteLink_four [of url_hash inviteURL vid sec]
    parseInviteLink_other [of url_hash inviteURL h]
  by blast

theorem parseInviteLink_by_fragment_witness:
  "parseInviteLink (URL_hash (\<lambda>_. True)) ''https://example.com/#/invite/doc/co_z1/inviteSecret_z2'' =
     Inr (Some \<lparr> valueID = ''co_z1'', inviteSecret = ''inviteSecret_z2'', valueHint = Some ''doc'' \<rparr>)
   \<and> parseInviteLink (URL_hash (\<lambda>_. True)) ''https://example.com/#/invite/co_z1/inviteSecret_z2'' =
     Inr (Some \<lparr> valueID = ''co_z1'', inviteSecret = ''inviteSecret_z2'', valueHint = None \<rparr>)
   \<and> parseInviteLink (URL_hash (\<lambda>_. True)) ''https://example.com/#/settings/co_z1/inviteSecret_z2'' =
     Inr None"
proof -
  have h5: "URL_hash (\<lambda>_. True) ''https://example.com/#/invite/doc/co_z1/inviteSecret_z2'' =
            Inr ''#/invite/doc/co_z1/inviteSecret_z2''"
    by code_simp
  have h4: "URL_hash (\<lambda>_. True) ''https://example.com/#/invite/co_z1/inviteSecret_z2'' =
            Inr ''#/invite/co_z1/inviteSecret_z2''"
    by code_simp
  have h0: "URL_hash (\<lambda>_. True) ''https://example.com/#/settings/co_z1/inviteSecret_z2'' =
            Inr ''#/settings/co_z1/inviteSecret_z2''"
    by code_simp
  have np: "\<not> prefix ''#/invite'' ''#/settings/co_z1/inviteSecret_z2''"
    by simp
  show ?thesis
    using
      parseInviteLink_by_fragment [where url_hash = "URL_hash (\<lambda>_. True)"
        and inviteURL = "''https://example.com/#/invite/doc/co_z1/inviteSecret_z2''"
        and hint = "''doc''" and vid = "''co_z1''" and sec = "''inviteSecret_z2''", OF h5]
      parseInviteLink_by_fragment [where url_hash = "URL_hash (\<lambda>_. True)"
        and inviteURL = "''https://example.com/#/invite/co_z1/inviteSecret_z2''"
        and vid = "''co_z1''" and sec = "''inviteSecret_z2''", OF h4]
      parseInviteLink_by_fragment [where url_hash = "URL_hash (\<lambda>_. True)"
        and inviteURL = "''https://example.com/#/settings/co_z1/inviteSecret_z2''", OF h0]
      np
    by simp
qed

text \<open>
  Claim C3 as it is stated fails for a fragment of five pieces whose value ID is empty: the
  guard \<^verbatim>\<open>if (!valueID || !inviteSecret) return undefined\<close> applies, and no record is
  returned.
\<close>

theorem parseInviteLink_empty_valueID:
  "parseInviteLink (URL_hash (\<lambda>_. True)) ''https://example.com/#/invite/doc//inviteSecret_z2'' =
     Inr None"
  by code_simp

lemma percent_encode_fragment_safe:
  "\<forall>c \<in> set s. \<not> fragment_percent_encode_set c \<Longrightarrow> percent_encode_fragment s = s"
  by (induction s) (simp_all add: percent_encode_fragment_def)

lemma space_of_char: "(of_char c :: nat) = 32 \<Longrightarrow> c = CHR '' ''"
proof -
  assume "(of_char c :: nat) = 32"
  then have "(of_char c :: nat) = of_char CHR '' ''" by simp
  then show ?thesis by (simp only: of_char_eq_iff)
qed

lemma safe_not_stripped:
  "\<not> fragment_percent_encode_set c \<Longrightarrow> \<not> c0_control_or_space c \<and> \<not> ascii_tab_or_newline c"
  using space_of_char [of c]
  by (auto simp: fragment_percent_encode_set_def c0_control_or_space_def ascii_tab_or_newline_def)

lemma hash_not_stripped:
  "\<not> c0_control_or_space CHR ''#'' \<and> \<not> ascii_tab_or_newline CHR ''#''"
  by (simp add: c0_control_or_space_def ascii_tab_or_newline_def)

lemma strip_link:
  assumes "frag \<noteq> []" and "\<forall>c \<in> set frag. \<not> fragment_percent_encode_set c"
  shows "strip_c0_control_or_space (base @ CHR ''#'' # frag) =
         dropWhile c0_control_or_space base @ CHR ''#'' # frag"
proof -
  have lead: "dropWhile c0_control_or_space (base @ CHR ''#'' # frag) =
              dropWhile c0_control_or_space base @ CHR ''#'' # frag"
    using hash_not_stripped by (simp add: dropWhile_append3)
  obtain ys y where frag: "frag = ys @ [y]"
    using assms(1) by (cases frag rule: rev_cases) auto
  then have "\<not> c0_control_or_space y" using assms(2) safe_not_stripped by simp
  then have "dropWhile c0_control_or_space
               (rev (dropWhile c0_control_or_space base @ CHR ''#'' # frag)) =
             rev (dropWhile c0_control_or_space base @ CHR ''#'' # frag)"
    by (simp add: frag)
  then show ?thesis by (simp only: strip_c0_control_or_space_def lead rev_rev_ident)
qed

lemma URL_hash_link:
  assumes "CHR ''#'' \<notin> set base" and "frag \<noteq> []"
    and "\<forall>c \<in> set frag. \<not> fragment_percent_encode_set c"
    and "parses (seen_before_fragment base)"
  shows "URL_hash parses (base @ CHR ''#'' # frag) = Inr (CHR ''#'' # frag)"
proof -
  let ?b = "seen_before_fragment base"
  have keep: "filter (\<lambda>c. \<not> ascii_tab_or_newline c) frag = frag"
    using assms(3) safe_not_stripped by (simp add: filter_id_conv)
  have s: "filter (\<lambda>c. \<not> ascii_tab_or_newline c)
             (strip_c0_control_or_space (base @ CHR ''#'' # frag)) = ?b @ CHR ''#'' # frag"
    using hash_not_stripped keep
    by (simp add: strip_link [OF assms(2,3)] seen_before_fragment_def)
  have nohash: "\<forall>c \<in> set ?b. c \<noteq> CHR ''#''"
    using assms(1) set_dropWhileD by (fastforce simp: seen_before_fragment_def)
  have tw: "takeWhile (\<lambda>c. c \<noteq> CHR ''#'') (?b @ CHR ''#'' # frag) = ?b"
    using nohash by (simp add: takeWhile_append2)
  have dw: "dropWhile (\<lambda>c. c \<noteq> CHR ''#'') (?b @ CHR ''#'' # frag) = CHR ''#'' # frag"
    using nohash by (simp add: dropWhile_append2)
  show ?thesis
    using assms(2,4) percent_encode_fragment_safe [OF assms(3)]
    by (simp add: URL_hash_def s tw dw Let_def)
qed

lemma invite_literal_safe: "\<forall>c \<in> set ''/invite/''. \<not> fragment_percent_encode_set c"
  by (simp add: fragment_percent_encode_set_def)

lemma slash_safe: "\<not> fragment_percent_encode_set CHR ''/''"
  by (simp add: fragment_percent_encode_set_def)

text \<open>
  Claim C4, amended. For every covalue for which \<^verbatim>\<open>createInviteLink\<close> returns a link,
  every role, every base URL without \<^verbatim>\<open>#\<close> that the URL parser accepts, and a value hint
  that is absent or else not empty, without \<^verbatim>\<open>/\<close> and without a character that URL
  fragments percent-encode (as are the covalue's ID and the invite secret),
  \<^verbatim>\<open>parseInviteLink\<close> on the link returns exactly the covalue's ID, the embedded invite
  secret and the same value hint (\<^verbatim>\<open>undefined\<close> when none was given).
\<close>

theorem invite_link_round_trip:
  assumes "createInviteLink createInvite href v r baseURL_opt hint = Inr link"
    and "base = (case baseURL_opt of None \<Rightarrow> withoutHash href | Some b \<Rightarrow> b)"
    and "CHR ''#'' \<notin> set base"
    and "parses (seen_before_fragment base)"
    and "case hint of None \<Rightarrow> True | Some h \<Rightarrow> url_plain h"
    and "url_plain (coValue_id v)"
    and "url_plain (createInvite (owningCore (coValue_core v)) r)"
  shows "parseInviteLink (URL_hash parses) link =
         Inr (Some \<lparr> valueID = coValue_id v,
                      inviteSecret = createInvite (owningCore (coValue_core v)) r,
                      valueHint = hint \<rparr>)"
proof -
  let ?sec = "createInvite (owningCore (coValue_core v)) r"
  let ?vid = "coValue_id v"
  let ?h = "if falsy hint then [] else the hint @ ''/''"
  let ?frag = "''/invite/'' @ ?h @ ?vid @ ''/'' @ ?sec"
  have link: "link = base @ CHR ''#'' # ?frag"
    using assms(1,2) by (simp add: createInviteLink_def Let_def split: if_splits)
  have vid: "?vid \<noteq> []" "CHR ''/'' \<notin> set ?vid" "\<forall>c \<in> set ?vid. \<not> fragment_percent_encode_set c"
    using assms(6) by (simp_all add: url_plain_def)
  have sec: "?sec \<noteq> []" "CHR ''/'' \<notin> set ?sec" "\<forall>c \<in> set ?sec. \<not> fragment_percent_encode_set c"
    using assms(7) by (simp_all add: url_plain_def)
  have hsafe: "\<forall>c \<in> set ?h. \<not> fragment_percent_encode_set c"
    using assms(5) slash_safe by (auto simp: url_plain_def falsy_def split: option.splits)
  have safe: "\<forall>c \<in> set ?frag. \<not> fragment_percent_encode_set c"
    using invite_literal_safe hsafe vid(3) sec(3) slash_safe by (simp only: set_append ball_Un) simp
  have "?frag \<noteq> []" by simp
  then have hash: "URL_hash parses link = Inr (CHR ''#'' # ?frag)"
    unfolding link using assms(3) safe assms(4) by (intro URL_hash_link) 
  show ?thesis
  proof (cases hint)
    case None
    then have "CHR ''#'' # ?frag = ''#/invite/'' @ ?vid @ ''/'' @ ?sec"
      by (simp add: falsy_def)
    then show ?thesis
      using parseInviteLink_four [of "URL_hash parses" link ?vid ?sec] hash vid sec None
      by simp
  next
    case (Some h)
    then have h: "h \<noteq> []" "CHR ''/'' \<notin> set h" using assms(5) by (simp_all add: url_plain_def)
    then have "CHR ''#'' # ?frag = ''#/invite/'' @ h @ ''/'' @ ?vid @ ''/'' @ ?sec"
      using Some by (simp add: falsy_def)
    then show ?thesis
      using parseInviteLink_five [of "URL_hash parses" link h ?vid ?sec] hash vid sec Some h
      by simp
  qed
qed

theorem invite_link_round_trip_witness:
  "createInviteLink (\<lambda>_ _. ''inviteSecret_z2'') ''https://app.example/#/old''
      \<lparr> coValue_id = ''co_z1'',
        coValue_core = CoValueCore ''co_z1'' (RulesetOwnedByGroup (CoValueCore ''co_zG'' RulesetGroup)) \<rparr>
      Writer (Some ''https://example.com/'') (Some ''doc'')
     = Inr ''https://example.com/#/invite/doc/co_z1/inviteSecret_z2''
   \<and> parseInviteLink (URL_hash (\<lambda>_. True)) ''https://example.com/#/invite/doc/co_z1/inviteSecret_z2'' =
     Inr (Some \<lparr> valueID = ''co_z1'', inviteSecret = ''inviteSecret_z2'', valueHint = Some ''doc'' \<rparr>)"
proof -
  let ?v = "\<lparr> coValue_id = ''co_z1'',
        coValue_core = CoValueCore ''co_z1'' (RulesetOwnedByGroup (CoValueCore ''co_zG'' RulesetGroup)) \<rparr>"
  have link: "createInviteLink (\<lambda>_ _. ''inviteSecret_z2'') ''https://app.example/#/old'' ?v
      Writer (Some ''https://example.com/'') (Some ''doc'')
     = Inr ''https://example.com/#/invite/doc/co_z1/inviteSecret_z2''"
    by (simp add: createInviteLink_def falsy_def)
  have base: "''https://example.com/'' =
      (case Some ''https://example.com/'' of None \<Rightarrow> withoutHash ''https://app.example/#/old''
       | Some b \<Rightarrow> b)"
    by simp
  have nohash: "CHR ''#'' \<notin> set ''https://example.com/''" by simp
  have hint: "case Some ''doc'' of None \<Rightarrow> True | Some h \<Rightarrow> url_plain h"
    by (simp add: url_plain_def fragment_percent_encode_set_def)
  have vid: "url_plain (coValue_id ?v)"
    by (simp add: url_plain_def fragment_percent_encode_set_def)
  have sec: "url_plain ((\<lambda>_ _. ''inviteSecret_z2'') (owningCore (coValue_core ?v)) Writer)"
    by (simp add: url_plain_def fragment_percent_encode_set_def)
  show ?thesis
    using link invite_link_round_trip [OF link base nohash _ hint vid sec, of "\<lambda>_. True"]
    by simp
qed

text \<open>
  Claim C4 as it is stated fails for two value hints without a slash. With the empty string
  as value hint, \<^verbatim>\<open>valueHint ? valueHint + "/" : ""\<close> leaves the hint out of the link,
  and parsing returns no hint; with a space in the value hint, the fragment of the parsed
  URL holds \<^verbatim>\<open>%20\<close>, and the hint returned differs from the one given.
\<close>

theorem invite_link_round_trip_fails:
  "createInviteLink (\<lambda>_ _. ''inviteSecret_z2'') []
      \<lparr> coValue_id = ''co_z1'', coValue_core = CoValueCore ''co_z1'' RulesetGroup \<rparr>
      Writer (Some ''https://example.com/'') (Some [])
     = Inr ''https://example.com/#/invite/co_z1/inviteSecret_z2''
   \<and> parseInviteLink (URL_hash (\<lambda>_. True)) ''https://example.com/#/invite/co_z1/inviteSecret_z2'' =
     Inr (Some \<lparr> valueID = ''co_z1'', inviteSecret = ''inviteSecret_z2'', valueHint = None \<rparr>)
   \<and> createInviteLink (\<lambda>_ _. ''inviteSecret_z2'') []
      \<lparr> coValue_id = ''co_z1'', coValue_core = CoValueCore ''co_z1'' RulesetGroup \<rparr>
      Writer (Some ''https://example.com/'') (Some ''my doc'')
     = Inr ''https://example.com/#/invite/my doc/co_z1/inviteSecret_z2''
   \<and> parseInviteLink (URL_hash (\<lambda>_. True)) ''https://example.com/#/invite/my doc/co_z1/inviteSecret_z2'' =
     Inr (Some \<lparr> valueID = ''co_z1'', inviteSecret = ''inviteSecret_z2'',
                  valueHint = Some ''my%20doc'' \<rparr>)"
  by code_simp


section \<open>Properties of session handles\<close>

lemma trySlots_granted:
  assumes "t < 200" and "2 * idx + retry \<le> t" and "retry \<le> 2"
    and "available t (lockName accountID (t div 2))"
    and "\<forall>t'. 2 * idx + retry \<le> t' \<and> t' < t \<longrightarrow> \<not> available t' (lockName accountID (t' div 2))"
  shows "trySlots available accountID nonce ls idx retry =
         (map (\<lambda>n. lockName accountID (n div 2)) [2 * idx + retry ..< Suc t],
          Inr (lockGranted accountID nonce (t div 2) ls))"
  using assms
proof (induction available accountID nonce ls idx retry rule: trySlots.induct)
  case (1 available accountID nonce ls idx retry)
  let ?pos = "2 * idx + retry"
  have idx: "idx < 100" using "1.prems"(1,2) by linarith
  show ?case
  proof (cases "retry < 2")
    case True
    then have here: "?pos div 2 = idx" by linarith
    show ?thesis
    proof (cases "available ?pos (lockName accountID idx)")
      case av: True
      have "t = ?pos"
      proof (rule ccontr)
        assume "t \<noteq> ?pos"
        then have "?pos < t" using "1.prems"(2) by linarith
        then have "\<not> available ?pos (lockName accountID (?pos div 2))"
          using "1.prems"(5) by blast
        then show False using av here by simp
      qed
      then show ?thesis using idx True av here
        by (subst trySlots.simps) (simp del: upt_Suc add: upt_conv_Cons)
    next
      case nav: False
      have "t \<noteq> ?pos" using "1.prems"(4) nav here by auto
      then have lt: "2 * idx + (retry + 1) \<le> t" using "1.prems"(2) by linarith
      have rest: "\<forall>t'. 2 * idx + (retry + 1) \<le> t' \<and> t' < t
                    \<longrightarrow> \<not> available t' (lockName accountID (t' div 2))"
        using "1.prems"(5) by simp
      have IH: "trySlots available accountID nonce ls idx (retry + 1) =
         (map (\<lambda>n. lockName accountID (n div 2)) [2 * idx + (retry + 1) ..< Suc t],
          Inr (lockGranted accountID nonce (t div 2) ls))"
        using "1.IH"(1) [OF idx True nav "1.prems"(1) lt _ "1.prems"(4) rest] True by simp
      have upt: "[?pos ..< Suc t] = ?pos # [2 * idx + (retry + 1) ..< Suc t]"
        using "1.prems"(2) by (simp add: upt_conv_Cons)
      have step: "trySlots available accountID nonce ls idx retry =
          (case trySlots available accountID nonce ls idx (retry + 1) of
             (names, res) \<Rightarrow> (lockName accountID idx # names, res))"
        by (subst trySlots.simps) (simp add: idx True nav)
      show ?thesis unfolding step IH upt by (simp add: here del: upt_Suc)
    qed
  next
    case False
    then have r: "retry = 2" using "1.prems"(3) by linarith
    have IH: "trySlots available accountID nonce ls (idx + 1) 0 =
         (map (\<lambda>n. lockName accountID (n div 2)) [2 * (idx + 1) + 0 ..< Suc t],
          Inr (lockGranted accountID nonce (t div 2) ls))"
      using "1.IH"(2) [OF idx False "1.prems"(1) _ _ "1.prems"(4)] "1.prems"(2,5) r by simp
    have step: "trySlots available accountID nonce ls idx retry =
          trySlots available accountID nonce ls (idx + 1) 0"
      by (subst trySlots.simps) (simp add: idx r)
    show ?thesis unfolding step IH by (simp add: r del: upt_Suc)
  qed
qed

lemma trySlots_none:
  assumes "idx \<le> 100" and "retry \<le> 2"
    and "\<forall>t'. 2 * idx + retry \<le> t' \<and> t' < 200 \<longrightarrow> \<not> available t' (lockName accountID (t' div 2))"
  shows "trySlots available accountID nonce ls idx retry =
         (map (\<lambda>n. lockName accountID (n div 2)) [2 * idx + retry ..< 200],
          Inl (Error ''Couldn't get lock on session after 100x2 tries''))"
  using assms
proof (induction available accountID nonce ls idx retry rule: trySlots.induct)
  case (1 available accountID nonce ls idx retry)
  let ?pos = "2 * idx + retry"
  show ?case
  proof (cases "idx < 100")
    case False
    then show ?thesis by (subst trySlots.simps) simp
  next
    case idx: True
    show ?thesis
    proof (cases "retry < 2")
      case True
      then have here: "?pos div 2 = idx" and pos: "?pos < 200" using idx by linarith+
      have nav: "\<not> available ?pos (lockName accountID idx)"
        using "1.prems"(3) pos here by (metis le_refl)
      have IH: "trySlots available accountID nonce ls idx (retry + 1) =
         (map (\<lambda>n. lockName accountID (n div 2)) [2 * idx + (retry + 1) ..< 200],
          Inl (Error ''Couldn't get lock on session after 100x2 tries''))"
        using "1.IH"(1) [OF idx True nav "1.prems"(1)] True "1.prems"(3) by simp
      have upt: "[?pos ..< 200] = ?pos # [2 * idx + (retry + 1) ..< 200]"
        using pos by (simp add: upt_conv_Cons)
      have step: "trySlots available accountID nonce ls idx retry =
          (case trySlots available accountID nonce ls idx (retry + 1) of
             (names, res) \<Rightarrow> (lockName accountID idx # names, res))"
        by (subst trySlots.simps) (simp add: idx True nav)
      show ?thesis unfolding step IH upt by (simp add: here)
    next
      case False
      then have r: "retry = 2" using "1.prems"(2) by linarith
      have IH: "trySlots available accountID nonce ls (idx + 1) 0 =
         (map (\<lambda>n. lockName accountID (n div 2)) [2 * (idx + 1) + 0 ..< 200],
          Inl (Error ''Couldn't get lock on session after 100x2 tries''))"
        using "1.IH"(2) [OF idx False] idx "1.prems"(3) r by simp
      have step: "trySlots available accountID nonce ls idx retry =
          trySlots available accountID nonce ls (idx + 1) 0"
        by (subst trySlots.simps) (simp add: idx r)
      show ?thesis unfolding step IH by (simp add: r)
    qed
  qed
qed

lemma lockGranted_sessionID:
  "sessionID (lockGranted accountID nonce idx ls) =
     (case ls (lockName accountID idx) of
        None \<Rightarrow> newRandomSessionID accountID nonce
      | Some stored \<Rightarrow> if stored = [] then newRandomSessionID accountID nonce else stored)"
  by (simp add: lockGranted_def falsy_def Let_def split: option.splits)

lemma lockGranted_slot: "slot (lockGranted accountID nonce idx ls) = idx"
  by (simp add: lockGranted_def Let_def)

lemma lockGranted_storage:
  "storage (lockGranted accountID nonce idx ls) =
     ls(lockName accountID idx \<mapsto> sessionID (lockGranted accountID nonce idx ls))"
  by (simp add: lockGranted_def Let_def)

lemma lockGranted_sessionID_nonempty: "sessionID (lockGranted accountID nonce idx ls) \<noteq> []"
  by (simp add: lockGranted_sessionID newRandomSessionID_def split: option.splits)

lemma getSessionHandleFor_resolved:
  assumes "getSessionHandleFor available accountID nonce ls = (names, Inr r)"
  shows "\<exists>t < 200. r = lockGranted accountID nonce (t div 2) ls"
proof (cases "\<exists>t < 200. available t (lockName accountID (t div 2))")
  case False
  then have "\<forall>t'. 2 * 0 + 0 \<le> t' \<and> t' < 200 \<longrightarrow> \<not> available t' (lockName accountID (t' div 2))"
    by simp
  then have "trySlots available accountID nonce ls 0 0 =
         (map (\<lambda>n. lockName accountID (n div 2)) [2 * 0 + 0 ..< 200],
          Inl (Error ''Couldn't get lock on session after 100x2 tries''))"
    by (intro trySlots_none) simp_all
  then have "snd (getSessionHandleFor available accountID nonce ls) =
             Inl (Error ''Couldn't get lock on session after 100x2 tries'')"
    by (simp only: getSessionHandleFor_def snd_conv)
  then show ?thesis by (simp only: assms snd_conv sum.distinct)
next
  case True
  define t where "t = (LEAST t. t < 200 \<and> available t (lockName accountID (t div 2)))"
  have t: "t < 200 \<and> available t (lockName accountID (t div 2))"
    unfolding t_def using True by (rule LeastI_ex)
  have least: "\<forall>t'. 2 * 0 + 0 \<le> t' \<and> t' < t \<longrightarrow> \<not> available t' (lockName accountID (t' div 2))"
  proof (intro allI impI)
    fix t' assume a: "2 * 0 + 0 \<le> t' \<and> t' < t"
    show "\<not> available t' (lockName accountID (t' div 2))"
    proof
      assume "available t' (lockName accountID (t' div 2))"
      then have "t' < 200 \<and> available t' (lockName accountID (t' div 2))" using a t by simp
      then have "t \<le> t'" unfolding t_def by (rule Least_le)
      then show False using a by simp
    qed
  qed
  have "trySlots available accountID nonce ls 0 0 =
         (map (\<lambda>n. lockName accountID (n div 2)) [2 * 0 + 0 ..< Suc t],
          Inr (lockGranted accountID nonce (t div 2) ls))"
    using t least by (intro trySlots_granted) simp_all
  then have "snd (getSessionHandleFor available accountID nonce ls) =
        Inr (lockGranted accountID nonce (t div 2) ls)"
    by (simp only: getSessionHandleFor_def snd_conv)
  then have "r = lockGranted accountID nonce (t div 2) ls"
    by (simp only: assms snd_conv sum.inject)
  then show ?thesis using t by blast
qed



text \<open>
  Claim C6. If a call of \<^verbatim>\<open>getSessionHandleFor\<close> has resolved a session for a slot, then
  every later call for the same account that acquires the same slot, started from a storage
  that still holds what the first call persisted for the slot (in particular the very
  storage the first call left, as after a restart), resolves the identical session ID,
  whichever locks are free and whichever nonce would be minted.
\<close>

theorem session_stable_across_restarts:
  assumes "getSessionHandleFor available1 accountID nonce1 ls1 = (names1, Inr r1)"
    and "getSessionHandleFor available2 accountID nonce2 ls2 = (names2, Inr r2)"
    and "slot r2 = slot r1"
    and "ls2 (lockName accountID (slot r1)) = storage r1 (lockName accountID (slot r1))"
  shows "sessionID r2 = sessionID r1"
proof -
  obtain t1 where r1: "r1 = lockGranted accountID nonce1 (t1 div 2) ls1"
    using getSessionHandleFor_resolved [OF assms(1)] by blast
  obtain t2 where r2: "r2 = lockGranted accountID nonce2 (t2 div 2) ls2"
    using getSessionHandleFor_resolved [OF assms(2)] by blast
  have slots: "slot r1 = t1 div 2" "t2 div 2 = t1 div 2"
    using assms(3) by (simp_all add: r1 r2 lockGranted_slot)
  have "storage r1 (lockName accountID (t1 div 2)) = Some (sessionID r1)"
    by (simp add: r1 lockGranted_storage)
  then have "ls2 (lockName accountID (t1 div 2)) = Some (sessionID r1)"
    using assms(4) slots(1) by simp
  moreover have "sessionID r1 \<noteq> []"
    by (simp add: r1 lockGranted_sessionID_nonempty)
  ultimately show ?thesis
    by (simp add: r2 slots(2) lockGranted_sessionID)
qed

theorem session_stable_across_restarts_witness:
  "snd (getSessionHandleFor (\<lambda>n name. n = 3) ''co_zA'' ''zN1'' Map.empty) =
     Inr (lockGranted ''co_zA'' ''zN1'' 1 Map.empty)
   \<and> snd (getSessionHandleFor (\<lambda>n name. n = 2) ''co_zA'' ''zN2''
            (storage (lockGranted ''co_zA'' ''zN1'' 1 Map.empty))) =
     Inr (lockGranted ''co_zA'' ''zN2'' 1 (storage (lockGranted ''co_zA'' ''zN1'' 1 Map.empty)))
   \<and> sessionID (lockGranted ''co_zA'' ''zN1'' 1 Map.empty) = ''co_zA_session_zN1''
   \<and> sessionID (lockGranted ''co_zA'' ''zN2'' 1 (storage (lockGranted ''co_zA'' ''zN1'' 1 Map.empty)))
       = ''co_zA_session_zN1''"
proof -
  let ?r1 = "lockGranted ''co_zA'' ''zN1'' 1 Map.empty"
  let ?r2 = "lockGranted ''co_zA'' ''zN2'' 1 (storage ?r1)"
  have run1: "getSessionHandleFor (\<lambda>n name. n = 3) ''co_zA'' ''zN1'' Map.empty =
        (map (\<lambda>n. lockName ''co_zA'' (n div 2)) [2 * 0 + 0 ..< Suc 3], Inr ?r1)"
    unfolding getSessionHandleFor_def
    using trySlots_granted [where t = 3 and idx = 0 and retry = 0
        and available = "\<lambda>n name. n = 3" and accountID = "''co_zA''" and nonce = "''zN1''"
        and ls = Map.empty]
    by simp
  have run2: "getSessionHandleFor (\<lambda>n name. n = 2) ''co_zA'' ''zN2'' (storage ?r1) =
        (map (\<lambda>n. lockName ''co_zA'' (n div 2)) [2 * 0 + 0 ..< Suc 2], Inr ?r2)"
    unfolding getSessionHandleFor_def
    using trySlots_granted [where t = 2 and idx = 0 and retry = 0
        and available = "\<lambda>n name. n = 2" and accountID = "''co_zA''" and nonce = "''zN2''"
        and ls = "storage ?r1"]
    by simp
  have slots: "slot ?r2 = slot ?r1" by (simp add: lockGranted_slot)
  have kept: "storage ?r1 (lockName ''co_zA'' (slot ?r1)) =
              storage ?r1 (lockName ''co_zA'' (slot ?r1))" ..
  have same: "sessionID ?r2 = sessionID ?r1"
    using session_stable_across_restarts [OF run1 run2 slots kept] .
  have sid: "sessionID ?r1 = ''co_zA_session_zN1''"
    by (simp add: lockGranted_sessionID newRandomSessionID_def)
  show ?thesis using run1 run2 same sid by (simp only: snd_conv)
qed


section \<open>Properties of createBinaryStreamFromBlob\<close>

lemma concat_pushChunks: "concat (pushChunks data idx) = drop idx data"
proof (induction data idx rule: pushChunks.induct)
  case (1 data idx)
  show ?case
  proof (cases "idx < length data")
    case True
    have "concat (pushChunks data idx) =
          take MAX_RECOMMENDED_TX_SIZE (drop idx data)
          @ concat (pushChunks data (idx + MAX_RECOMMENDED_TX_SIZE))"
      using True by (subst pushChunks.simps) (simp add: uint8_slice_def)
    also have "concat (pushChunks data (idx + MAX_RECOMMENDED_TX_SIZE)) =
          drop MAX_RECOMMENDED_TX_SIZE (drop idx data)"
      using "1.IH" [OF True] by (simp add: add.commute)
    finally show ?thesis by (simp only: append_take_drop_id)
  next
    case False
    then show ?thesis by (subst pushChunks.simps) simp
  qed
qed

lemma pushChunks_sizes:
  "c \<in> set (pushChunks data idx) \<Longrightarrow> c \<noteq> [] \<and> length c \<le> MAX_RECOMMENDED_TX_SIZE"
proof (induction data idx rule: pushChunks.induct)
  case (1 data idx)
  show ?case
  proof (cases "idx < length data")
    case True
    have "pushChunks data idx =
          uint8_slice data idx (idx + MAX_RECOMMENDED_TX_SIZE)
          # pushChunks data (idx + MAX_RECOMMENDED_TX_SIZE)"
      using True by (subst pushChunks.simps) simp
    then consider "c = uint8_slice data idx (idx + MAX_RECOMMENDED_TX_SIZE)"
      | "c \<in> set (pushChunks data (idx + MAX_RECOMMENDED_TX_SIZE))"
      using "1.prems" by auto
    then show ?thesis
    proof cases
      case 1
      then show ?thesis using True
        by (simp add: uint8_slice_def MAX_RECOMMENDED_TX_SIZE_def)
    next
      case 2
      then show ?thesis using "1.IH" [OF True] by simp
    qed
  next
    case False
    then have "pushChunks data idx = []" by (subst pushChunks.simps) simp
    then show ?thesis using "1.prems" by simp
  qed
qed

text \<open>
  Claim C7. For every blob, the calls on the stream are: one start with the blob's MIME type,
  its size in bytes and, for a file, its name; then chunks, each not empty and of at most
  \<^verbatim>\<open>MAX_RECOMMENDED_TX_SIZE\<close> bytes, whose concatenation in the order pushed is the
  blob's data; then the end marker, which is the last call.
\<close>

theorem createBinaryStreamFromBlob_chunks:
  "\<exists>chunks.
     createBinaryStreamFromBlob b =
       StartBinaryStream
         \<lparr> mimeType = blob_type b, totalSizeBytes = length (blob_bytes b), fileName = blob_name b \<rparr>
       # map PushBinaryStreamChunk chunks @ [EndBinaryStream]
     \<and> concat chunks = blob_bytes b
     \<and> (\<forall>c \<in> set chunks. c \<noteq> [] \<and> length c \<le> MAX_RECOMMENDED_TX_SIZE)"
proof (intro exI conjI)
  show "createBinaryStreamFromBlob b =
       StartBinaryStream
         \<lparr> mimeType = blob_type b, totalSizeBytes = length (blob_bytes b), fileName = blob_name b \<rparr>
       # map PushBinaryStreamChunk (pushChunks (blob_bytes b) 0) @ [EndBinaryStream]"
    by (simp add: createBinaryStreamFromBlob_def blob_size_def Let_def)
  show "concat (pushChunks (blob_bytes b) 0) = blob_bytes b"
    by (simp add: concat_pushChunks)
  show "\<forall>c \<in> set (pushChunks (blob_bytes b) 0). c \<noteq> [] \<and> length c \<le> MAX_RECOMMENDED_TX_SIZE"
    using pushChunks_sizes by blast
qed

theorem createBinaryStreamFromBlob_chunks_witness:
  "\<exists>chunks.
     createBinaryStreamFromBlob
       \<lparr> blob_type = ''text/plain'', blob_bytes = [104, 105, 33], blob_name = Some ''hi.txt'' \<rparr> =
       StartBinaryStream
         \<lparr> mimeType = ''text/plain'', totalSizeBytes = 3, fileName = Some ''hi.txt'' \<rparr>
       # map PushBinaryStreamChunk chunks @ [EndBinaryStream]
     \<and> concat chunks = [104, 105, 33]
     \<and> (\<forall>c \<in> set chunks. c \<noteq> [] \<and> length c \<le> 102400)"
  using createBinaryStreamFromBlob_chunks
    [of "\<lparr> blob_type = ''text/plain'', blob_bytes = [104, 105, 33], blob_name = Some ''hi.txt'' \<rparr>"]
  by (simp add: MAX_RECOMMENDED_TX_SIZE_def numeral_3_eq_3)


section \<open>Properties of the incoming stream\<close>

lemmas incoming_defs =
  onmessage_def pingTimeoutCallback_def closeListener_def errorListener_def cancel_def
  fireClose_def controller_close_def controller_enqueue_def controller_error_def ws_close_def

lemma incomingStep_live_readable:
  assumes "readyState s = CONNECTING \<or> readyState s = OPEN \<longrightarrow> controller s = Readable"
  shows "readyState (incomingStep P s e) = CONNECTING \<or> readyState (incomingStep P s e) = OPEN
         \<longrightarrow> controller (incomingStep P s e) = Readable"
  using assms
  by (cases e) (auto simp: incoming_defs Let_def split: if_splits option.splits sum.splits)

lemma incomingStep_no_ping_enqueued:
  assumes "\<forall>m \<in> set (enqueued s). \<not> isPing m"
  shows "\<forall>m \<in> set (enqueued (incomingStep P s e)). \<not> isPing m"
  using assms
  by (cases e)
     (auto simp: incoming_defs isPing_def Let_def split: if_splits option.splits sum.splits)

lemma foldl_incoming_invariant:
  assumes "readyState s = CONNECTING \<or> readyState s = OPEN \<longrightarrow> controller s = Readable"
    and "\<forall>m \<in> set (enqueued s). \<not> isPing m"
  shows "(readyState (foldl (incomingStep P) s evs) = CONNECTING
            \<or> readyState (foldl (incomingStep P) s evs) = OPEN
          \<longrightarrow> controller (foldl (incomingStep P) s evs) = Readable)
       \<and> (\<forall>m \<in> set (enqueued (foldl (incomingStep P) s evs)). \<not> isPing m)"
  using assms
proof (induction evs arbitrary: s)
  case Nil
  then show ?case by simp
next
  case (Cons e evs)
  show ?case
    using Cons.IH [OF incomingStep_live_readable [OF Cons.prems(1)]
                      incomingStep_no_ping_enqueued [OF Cons.prems(2)]]
    by simp
qed

lemma incomingRun_invariant:
  "(readyState (incomingRun P evs) = CONNECTING \<or> readyState (incomingRun P evs) = OPEN
      \<longrightarrow> controller (incomingRun P evs) = Readable)
   \<and> (\<forall>m \<in> set (enqueued (incomingRun P evs)). \<not> isPing m)"
  unfolding incomingRun_def
  by (rule foldl_incoming_invariant) (simp_all add: websocketReadableStream_def)

lemma expiry_closes_both:
  assumes "readyState s = CONNECTING \<or> readyState s = OPEN \<longrightarrow> controller s = Readable"
    and "pingTimeout s \<noteq> None"
  shows "controller (incomingStep P s PingTimeoutExpired) \<noteq> Readable
       \<and> readyState (incomingStep P s PingTimeoutExpired) \<noteq> CONNECTING
       \<and> readyState (incomingStep P s PingTimeoutExpired) \<noteq> OPEN
       \<and> pingTimeout (incomingStep P s PingTimeoutExpired) = None"
  using assms by (auto simp: incoming_defs Let_def split: if_splits)

lemma msg_type_not_null: "msg \<noteq> JNull \<Longrightarrow> \<exists>t. msg_type msg = Inr t"
  by (cases msg) simp_all

text \<open>
  Claim C1, amended. Let \<open>s\<close> be a state that the incoming stream reaches in which the socket is open
  (so that a message can arrive), and let a message arrive at time \<open>now\<close> whose data parse
  to a JSON value \<open>msg\<close> other than \<^verbatim>\<open>null\<close> (the messages of the protocol are JSON
  records). Then exactly one timer is pending afterwards, due 2500 ms after \<open>now\<close>, and the
  handler raises no exception; if \<open>msg\<close> has type \<^verbatim>\<open>ping\<close>, nothing else changes, so it is
  not enqueued, and no ping is among the values enqueued so far; otherwise \<open>msg\<close> is
  enqueued, after those enqueued before; if the timer then expires, the controller is
  closed and the socket is closing. Moreover, in every reachable state \<open>s'\<close> with a pending
  timer, after the expiry the controller is no longer readable, the socket is neither
  connecting nor open, and no timer is pending.
\<close>

theorem incoming_ping_timeout:
  assumes "s = incomingRun JSON_parse evs" and "readyState s = OPEN"
    and "JSON_parse data = Some msg" and "msg \<noteq> JNull"
    and "s' = incomingRun JSON_parse evs'" and "pingTimeout s' \<noteq> None"
  shows "pingTimeout (incomingStep JSON_parse s (Message now data)) = Some (now + 2500)
    \<and> snd (onmessage JSON_parse now data s) = None
    \<and> (isPing msg \<longrightarrow>
         incomingStep JSON_parse s (Message now data) = s\<lparr> pingTimeout := Some (now + 2500) \<rparr>)
    \<and> (\<not> isPing msg \<longrightarrow>
         enqueued (incomingStep JSON_parse s (Message now data)) = enqueued s @ [msg])
    \<and> (\<forall>m \<in> set (enqueued s). \<not> isPing m)
    \<and> controller (incomingStep JSON_parse (incomingStep JSON_parse s (Message now data))
                     PingTimeoutExpired) = CloseRequested
    \<and> readyState (incomingStep JSON_parse (incomingStep JSON_parse s (Message now data))
                     PingTimeoutExpired) = CLOSING
    \<and> controller (incomingStep JSON_parse s' PingTimeoutExpired) \<noteq> Readable
    \<and> readyState (incomingStep JSON_parse s' PingTimeoutExpired) \<noteq> CONNECTING
    \<and> readyState (incomingStep JSON_parse s' PingTimeoutExpired) \<noteq> OPEN
    \<and> pingTimeout (incomingStep JSON_parse s' PingTimeoutExpired) = None"
proof -
  have readable: "controller s = Readable"
    using incomingRun_invariant [of JSON_parse evs] assms(1,2) by simp
  have noping: "\<forall>m \<in> set (enqueued s). \<not> isPing m"
    using incomingRun_invariant [of JSON_parse evs] assms(1) by simp
  obtain t where t: "msg_type msg = Inr t"
    using msg_type_not_null [OF assms(4)] by blast
  have after_message:
    "pingTimeout (incomingStep JSON_parse s (Message now data)) = Some (now + 2500)
    \<and> snd (onmessage JSON_parse now data s) = None
    \<and> (isPing msg \<longrightarrow>
         incomingStep JSON_parse s (Message now data) = s\<lparr> pingTimeout := Some (now + 2500) \<rparr>)
    \<and> (\<not> isPing msg \<longrightarrow>
         enqueued (incomingStep JSON_parse s (Message now data)) = enqueued s @ [msg])
    \<and> controller (incomingStep JSON_parse (incomingStep JSON_parse s (Message now data))
                     PingTimeoutExpired) = CloseRequested
    \<and> readyState (incomingStep JSON_parse (incomingStep JSON_parse s (Message now data))
                     PingTimeoutExpired) = CLOSING"
    using assms(2,3) readable t by (simp add: incoming_defs isPing_def Let_def)
  have inv': "readyState s' = CONNECTING \<or> readyState s' = OPEN \<longrightarrow> controller s' = Readable"
    using incomingRun_invariant [of JSON_parse evs'] assms(5) by simp
  show ?thesis
    using after_message noping expiry_closes_both [OF inv' assms(6)] by blast
qed

theorem incoming_ping_timeout_witness:
  "readyState (incomingRun Some [WsOpened, Message 100 (JObject [(''type'', JString ''ping'')])])
     = OPEN
   \<and> pingTimeout (incomingRun Some [WsOpened, Message 100 (JObject [(''type'', JString ''ping'')])])
     \<noteq> None
   \<and> incomingStep Some
        (incomingRun Some [WsOpened, Message 100 (JObject [(''type'', JString ''ping'')])])
        (Message 1000 (JObject [(''action'', JString ''known''), (''id'', JString ''co_z1'')])) =
      \<lparr> pingTimeout = Some 3500, controller = Readable,
        enqueued = [JObject [(''action'', JString ''known''), (''id'', JString ''co_z1'')]],
        readyState = OPEN, closeListenerAdded = True \<rparr>
   \<and> readyState (incomingStep Some
        (incomingRun Some [WsOpened, Message 100 (JObject [(''type'', JString ''ping'')])])
        PingTimeoutExpired) = CLOSING"
proof -
  let ?evs = "[WsOpened, Message 100 (JObject [(''type'', JString ''ping'')])]"
  let ?msg = "JObject [(''action'', JString ''known''), (''id'', JString ''co_z1'')]"
  have run: "incomingRun Some ?evs =
      \<lparr> pingTimeout = Some 2600, controller = Readable, enqueued = [],
        readyState = OPEN, closeListenerAdded = True \<rparr>"
    by (simp add: incomingRun_def websocketReadableStream_def incoming_defs Let_def)
  have op: "readyState (incomingRun Some ?evs) = OPEN" by (simp only: run) simp
  have pend: "pingTimeout (incomingRun Some ?evs) \<noteq> None" by (simp only: run) simp
  have parse: "Some ?msg = Some ?msg" ..
  have nonnull: "?msg \<noteq> JNull" by simp
  have np: "\<not> isPing ?msg" by (simp add: isPing_def)
  have closing: "readyState (incomingStep Some (incomingRun Some ?evs) PingTimeoutExpired) = CLOSING"
    by (simp only: run) (simp add: incoming_defs Let_def)
  show ?thesis
    using op pend closing np
      incoming_ping_timeout [OF refl op parse nonnull refl pend, of 1000]
    by (simp add: run incoming_defs isPing_def Let_def)
qed


text \<open>
  Claim C1 as it is stated fails for two inbound messages. A frame whose data are not JSON
  (here \<open>None\<close>) makes \<^verbatim>\<open>JSON.parse\<close> throw before the timer is touched: after a ping at
  time 100, such a frame at time 200 leaves the timer due at 2600, not at 2700. A frame
  whose data are the JSON text \<^verbatim>\<open>null\<close> resets the timer, but \<^verbatim>\<open>msg.type\<close> throws: the
  message is not a ping and is not enqueued.
\<close>

theorem incoming_message_not_json_or_null:
  "pingTimeout (incomingRun (\<lambda>d. d)
      [WsOpened, Message 100 (Some (JObject [(''type'', JString ''ping'')])), Message 200 None])
     = Some 2600
   \<and> pingTimeout (incomingRun (\<lambda>d. d)
      [WsOpened, Message 100 (Some (JObject [(''type'', JString ''ping'')])),
       Message 200 (Some JNull)])
     = Some 2700
   \<and> enqueued (incomingRun (\<lambda>d. d)
      [WsOpened, Message 100 (Some (JObject [(''type'', JString ''ping'')])),
       Message 200 (Some JNull)])
     = []
   \<and> \<not> isPing JNull
   \<and> snd (onmessage (\<lambda>d. d) 200 (Some JNull)
          (incomingRun (\<lambda>d. d)
             [WsOpened, Message 100 (Some (JObject [(''type'', JString ''ping'')]))]))
     = Some TypeError"
  by (simp add: incomingRun_def websocketReadableStream_def incoming_defs isPing_def Let_def)


section \<open>Properties of passphrase authentication\<close>





section \<open>Properties of the cryptographic envelope\<close>

lemma filter_key_distinct:
  "distinct (map f xs) \<Longrightarrow> k \<in> set xs \<Longrightarrow> filter (\<lambda>x. f k = f x) xs = [k]"
proof (induction xs)
  case Nil
  then show ?case by simp
next
  case (Cons x xs)
  show ?case
  proof (cases "k = x")
    case True
    have "\<forall>y \<in> set xs. f x \<noteq> f y" using Cons.prems(1) by auto
    then have "filter (\<lambda>y. f x = f y) xs = []" by (simp add: filter_empty_conv)
    then show ?thesis using True by simp
  next
    case False
    then have "k \<in> set xs" using Cons.prems(2) by simp
    moreover have "f k \<noteq> f x"
    proof
      assume "f k = f x"
      then have "f x \<in> f ` set xs" using \<open>k \<in> set xs\<close> by (metis imageI)
      then show False using Cons.prems(1) by simp
    qed
    ultimately show ?thesis using Cons by simp
  qed
qed

lemma sort_key_permuted:
  assumes "distinct (map f xs)" and "mset ys = mset xs"
  shows "sort_key f ys = sort_key f xs"
proof (rule properties_for_sort_key)
  show "mset (sort_key f xs) = mset ys" using assms(2) by simp
  have dy: "distinct (map f ys)"
    using assms by (metis distinct_map mset_eq_setD mset_eq_imp_distinct_iff)
  show "filter (\<lambda>x. f k = f x) (sort_key f xs) = filter (\<lambda>x. f k = f x) ys"
    if "k \<in> set (sort_key f xs)" for k
  proof -
    have kx: "k \<in> set xs" using that by simp
    then have ky: "k \<in> set ys" using assms(2) mset_eq_setD by blast
    have "distinct (map f (sort_key f xs))"
      using assms(1) by (metis distinct_map distinct_sort set_sort)
    then have "filter (\<lambda>x. f k = f x) (sort_key f xs) = [k]"
      using that by (rule filter_key_distinct)
    moreover have "filter (\<lambda>x. f k = f x) ys = [k]"
      using dy ky by (rule filter_key_distinct)
    ultimately show ?thesis by simp
  qed
  show "sorted (map f (sort_key f xs))" by simp
qed

lemma canonical_reordered: "reordered x y \<Longrightarrow> canonical x = canonical y"
proof (induction rule: reordered.induct)
  case (same v)
  show ?case ..
next
  case (elements xs ys)
  then have "map canonical xs = map canonical ys"
    by (induction xs ys rule: list_all2_induct) simp_all
  then show ?case by simp
next
  case (fields fs hs gs)
  let ?c = "\<lambda>(k, v). (k, canonical v)"
  from fields have dist: "distinct (map fst fs)" and perm: "mset gs = mset hs"
    by blast+
  from fields have
    "list_all2 (\<lambda>f h. fst f = fst h \<and> reordered (snd f) (snd h)
                 \<and> canonical (snd f) = canonical (snd h)) fs hs"
    by blast
  then have same_map: "map ?c fs = map ?c hs"
    by (induction fs hs rule: list_all2_induct) (auto simp: case_prod_beta)
  have "map fst (map ?c fs) = map fst fs" by (induction fs) auto
  then have d: "distinct (map fst (map ?c fs))" using dist by (simp only:)
  have "mset (map ?c gs) = mset (map ?c fs)"
    using perm same_map by (metis mset_map)
  then have "sort_key fst (map ?c gs) = sort_key fst (map ?c fs)"
    using d by (intro sort_key_permuted)
  then show ?case by simp
qed

text \<open>
  Claim C9. In the model of the spec's signatures: for every payload \<open>x\<close> and signer secret
  \<open>k\<close>, the signature of \<open>x\<close> by \<open>k\<close> verifies for \<open>x\<close> under the signer ID of \<open>k\<close>, also
  when \<open>x\<close> is presented with its object keys in another insertion order (the payload is
  canonicalised before hashing); and for every other signer secret \<open>k'\<close>, neither does it
  verify under the signer ID of \<open>k'\<close>, nor does a signature made by \<open>k'\<close> verify under the
  signer ID of \<open>k\<close>.
\<close>

theorem signatures_verify_only_under_signer:
  "verify (sign k x) x (getSignerID k)
   \<and> (reordered x x' \<longrightarrow> verify (sign k x) x' (getSignerID k))
   \<and> (k' \<noteq> k \<longrightarrow> \<not> verify (sign k x) x (getSignerID k')
                  \<and> \<not> verify (sign k' x) x (getSignerID k))"
  using canonical_reordered [of x x']
  by (auto simp: sign_def getSignerID_def secureHash_def)

theorem signatures_verify_only_under_signer_witness:
  "reordered (JObject [(''b'', JString ''world''), (''a'', JString ''hello'')])
             (JObject [(''a'', JString ''hello''), (''b'', JString ''world'')])
   \<and> ''signerSecret_z2'' \<noteq> ''signerSecret_z1''
   \<and> verify (sign ''signerSecret_z1'' (JObject [(''b'', JString ''world''), (''a'', JString ''hello'')]))
        (JObject [(''a'', JString ''hello''), (''b'', JString ''world'')])
        (getSignerID ''signerSecret_z1'')
   \<and> \<not> verify (sign ''signerSecret_z2'' (JObject [(''b'', JString ''world''), (''a'', JString ''hello'')]))
        (JObject [(''b'', JString ''world''), (''a'', JString ''hello'')])
        (getSignerID ''signerSecret_z1'')"
proof -
  let ?x = "JObject [(''b'', JString ''world''), (''a'', JString ''hello'')]"
  let ?x' = "JObject [(''a'', JString ''hello''), (''b'', JString ''world'')]"
  have r: "reordered ?x ?x'"
    by (rule reordered.fields [where hs = "[(''b'', JString ''world''), (''a'', JString ''hello'')]"])
       (simp_all add: reordered.same)
  have ne: "''signerSecret_z2'' \<noteq> ''signerSecret_z1''" by simp
  show ?thesis
    using r ne
      signatures_verify_only_under_signer [of "''signerSecret_z1''" ?x ?x' "''signerSecret_z2''"]
    by blast
qed

text \<open>
  Claim C8. In the model of the spec's encryption: a transaction encrypted under the key
  secret \<open>k\<close> decrypts to \<^verbatim>\<open>undefined\<close> under every other key secret, and so does a
  wrapped key secret under every key secret other than the encrypting one (no exception in
  either case); unsealing a sealed message with a sealer secret other than the recipient's
  raises the error \<^verbatim>\<open>Wrong tag\<close>.
\<close>

theorem wrong_key_undefined_wrong_sealer_raises:
  "(k' \<noteq> k \<longrightarrow> decryptForTransaction (encryptForTransaction changes k n) k' n' = None)
   \<and> (k' \<noteq> key_secret encrypting \<longrightarrow>
        decryptKeySecret (encryptKeySecret toEncrypt encrypting) k' = None)
   \<and> (wrongSealer \<noteq> sealer \<longrightarrow>
        unseal (seal message sender (getSealerID sealer) n) wrongSealer (getSealerID sender) n'
          = Inl (Error ''Wrong tag''))"
  by (auto simp: decryptForTransaction_def encryptForTransaction_def decryptKeySecret_def
        encryptKeySecret_def unseal_def seal_def getSealerID_def doubleton_eq_iff)

theorem wrong_key_undefined_wrong_sealer_raises_witness:
  "''keySecret_z2'' \<noteq> ''keySecret_z1''
   \<and> decryptForTransaction
        (encryptForTransaction (JObject [(''a'', JString ''hello'')]) ''keySecret_z1'' (JNumber 0))
        ''keySecret_z2'' (JNumber 0) = None
   \<and> decryptKeySecret
        (encryptKeySecret \<lparr> key_id = ''key_z1'', key_secret = ''keySecret_z3'' \<rparr>
                          \<lparr> key_id = ''key_z2'', key_secret = ''keySecret_z1'' \<rparr>)
        ''keySecret_z2'' = None
   \<and> unseal (seal (JObject [(''a'', JString ''hello'')]) ''sealerSecret_zS''
                (getSealerID ''sealerSecret_z1'') (JNumber 0))
        ''sealerSecret_z2'' (getSealerID ''sealerSecret_zS'') (JNumber 0)
       = Inl (Error ''Wrong tag'')"
proof -
  have k: "''keySecret_z2'' \<noteq> ''keySecret_z1''" by simp
  have k2: "''keySecret_z2'' \<noteq> key_secret \<lparr> key_id = ''key_z2'', key_secret = ''keySecret_z1'' \<rparr>"
    by simp
  have s: "''sealerSecret_z2'' \<noteq> ''sealerSecret_z1''" by simp
  show ?thesis
    using k k2 s
      wrong_key_undefined_wrong_sealer_raises [of "''keySecret_z2''" "''keySecret_z1''"
        "JObject [(''a'', JString ''hello'')]" "JNumber 0" "JNumber 0"
        "\<lparr> key_id = ''key_z2'', key_secret = ''keySecret_z1'' \<rparr>"
        "\<lparr> key_id = ''key_z1'', key_secret = ''keySecret_z3'' \<rparr>"
        "''sealerSecret_z2''" "''sealerSecret_z1''" "JObject [(''a'', JString ''hello'')]"
        "''sealerSecret_zS''"]
    by blast
qed

end
